theory Spec2Isabelle
  imports Complex_Main "HOL-Library.Monad_Syntax"
begin

section \<open>Numbers, arrays and loops of the coupling driver\<close>

subsection \<open>Doubles\<close>

text \<open>
  A C++ \<open>double\<close> is modelled as a real number or as one non-finite value that stands for
  NaN and both infinities. Arithmetic on finite values is exact (rounding and overflow are
  not modelled); a non-finite operand makes the result non-finite, and so does a division
  by zero, which C++ performs without raising. (IEEE gives 0 for a finite value divided by
  an infinity; no divisor of the driver is an infinity when its inputs are finite.)
\<close>

datatype double = Finite real | NonFinite

fun dadd :: "double \<Rightarrow> double \<Rightarrow> double" where
  "dadd (Finite a) (Finite b) = Finite (a + b)"
| "dadd _ _ = NonFinite"

fun dsub :: "double \<Rightarrow> double \<Rightarrow> double" where
  "dsub (Finite a) (Finite b) = Finite (a - b)"
| "dsub _ _ = NonFinite"

fun dmul :: "double \<Rightarrow> double \<Rightarrow> double" where
  "dmul (Finite a) (Finite b) = Finite (a * b)"
| "dmul _ _ = NonFinite"

fun ddiv :: "double \<Rightarrow> double \<Rightarrow> double" where
  "ddiv (Finite a) (Finite b) = (if b = 0 then NonFinite else Finite (a / b))"
| "ddiv _ _ = NonFinite"

fun dcos :: "double \<Rightarrow> double" where
  "dcos (Finite a) = Finite (cos a)"
| "dcos NonFinite = NonFinite"

fun dsin :: "double \<Rightarrow> double" where
  "dsin (Finite a) = Finite (sin a)"
| "dsin NonFinite = NonFinite"

text \<open>Conversion of an integer count to \<open>double\<close>, as in \<open>q_avg /= cell_instances.size()\<close>.\<close>

definition of_count :: "nat \<Rightarrow> double" where
  "of_count n = Finite (real n)"

subsection \<open>Arrays\<close>

text \<open>
  A one-dimensional \<open>xt::xtensor\<close> is a list. Its \<open>operator()\<close> is unchecked: a read
  outside the array is undefined behaviour in the source and \<open>None\<close> here.
\<close>

definition xt_get :: "'a list \<Rightarrow> nat \<Rightarrow> 'a option" where
  "xt_get xs i = (if i < length xs then Some (xs ! i) else None)"

text \<open>
  A three-dimensional \<open>xt::xtensor\<close>: its shape and its elements in row-major order.
  \<open>xt::flatten\<close> is the row-major view, that is the storage itself.
\<close>

record xtensor3 =
  shape :: "nat \<times> nat \<times> nat"
  storage :: "double list"

definition flat_index :: "nat \<times> nat \<times> nat \<Rightarrow> nat \<Rightarrow> nat \<Rightarrow> nat \<Rightarrow> nat" where
  "flat_index sh i j k = (case sh of (a, b, c) \<Rightarrow> (i * b + j) * c + k)"

definition in_shape :: "nat \<times> nat \<times> nat \<Rightarrow> nat \<Rightarrow> nat \<Rightarrow> nat \<Rightarrow> bool" where
  "in_shape sh i j k = (case sh of (a, b, c) \<Rightarrow> i < a \<and> j < b \<and> k < c)"


definition at_put :: "xtensor3 \<Rightarrow> nat \<Rightarrow> nat \<Rightarrow> nat \<Rightarrow> double \<Rightarrow> xtensor3 option" where
  "at_put t i j k v =
     (if in_shape (shape t) i j k
      then Some (t\<lparr>storage := (storage t)[flat_index (shape t) i j k := v]\<rparr>)
      else None)"

text \<open>\<open>for (auto& val : t) val = 0.0;\<close>\<close>

definition zero_fill :: "xtensor3 \<Rightarrow> xtensor3" where
  "zero_fill t = t\<lparr>storage := map (\<lambda>val. Finite 0) (storage t)\<rparr>"


subsection \<open>Loops\<close>

text \<open>
  A range-based \<open>for\<close> over a vector. The body may fail (an exception or undefined
  behaviour), which ends the loop with \<open>None\<close>.
\<close>

primrec for_each :: "'a list \<Rightarrow> ('a \<Rightarrow> 's \<Rightarrow> 's option) \<Rightarrow> 's \<Rightarrow> 's option" where
  "for_each [] body s = Some s"
| "for_each (x # xs) body s = (case body x s of None \<Rightarrow> None | Some s' \<Rightarrow> for_each xs body s')"

text \<open>
  \<open>for (int i = i0; i < n; ++i) body\<close>. A counter that starts at 0 and is only incremented
  is a natural number; the grids are far too small for it to leave the range of \<open>int\<close>.
\<close>

function for_loop :: "nat \<Rightarrow> nat \<Rightarrow> (nat \<Rightarrow> 's \<Rightarrow> 's option) \<Rightarrow> 's \<Rightarrow> 's option" where
  "for_loop i n body s =
     (if i < n
      then (case body i s of None \<Rightarrow> None | Some s' \<Rightarrow> for_loop (Suc i) n body s')
      else Some s)"
  by pat_completeness auto
termination
  by (relation "measure (\<lambda>(i, n, body, s). n - i)") auto

declare for_loop.simps [simp del]

section \<open>The heat-conduction solver as the driver sees it\<close>

text \<open>
  The fields of \<open>SurrogateHeatDriver\<close> that the coupling driver reads and writes. The
  counts are non-negative. \<open>pin_centers\<close> holds one (x, y) pair per pin.
\<close>

record heat_driver =
  n_pins :: nat
  n_axial :: nat
  n_fuel_rings :: nat
  n_clad_rings :: nat
  r_grid_fuel :: "double list"
  r_grid_clad :: "double list"
  z :: "double list"
  pin_centers :: "(double \<times> double) list"
  source :: xtensor3
  temperature :: xtensor3

text \<open>
  Modelled from the spec: the method \<open>SurrogateHeatDriver::n_rings()\<close> is declared outside
  this file; the specification gives \<open>n_rings = n_fuel_rings + n_clad_rings\<close>.
\<close>

definition n_rings :: "heat_driver \<Rightarrow> nat" where
  "n_rings h = n_fuel_rings h + n_clad_rings h"

section \<open>Heat-source projection\<close>

text \<open>
  The innermost body of \<open>update_heat_source\<close>, at pin \<open>i\<close>, layer \<open>j\<close>, ring \<open>k\<close>. The loop
  state is the heat-source tensor and the running \<open>ring_index\<close>. \<open>Q\<close> is the array that
  \<open>openmc_driver_->heat_source(power_)\<close> returned; \<open>r2c\<close> is \<open>ring_to_cell_inst_\<close>, an
  unordered map whose \<open>operator[]\<close> yields an empty vector for an absent key.
\<close>

definition q_accumulate :: "double list \<Rightarrow> nat \<Rightarrow> double \<Rightarrow> double option" where
  "q_accumulate Q idx q_avg = do { q \<leftarrow> xt_get Q idx; Some (dadd q_avg q) }"

definition heat_source_ring ::
  "heat_driver \<Rightarrow> double list \<Rightarrow> (nat \<Rightarrow> nat list) \<Rightarrow> nat \<Rightarrow> nat \<Rightarrow> nat \<Rightarrow>
   xtensor3 \<times> nat \<Rightarrow> (xtensor3 \<times> nat) option" where
  "heat_source_ring h Q r2c i j k st =
     (case st of (src, ring_index) \<Rightarrow>
        if k < n_fuel_rings h then do {
          let cell_instances = r2c ring_index;
          q_sum \<leftarrow> for_each cell_instances (q_accumulate Q) (Finite 0);
          let q_avg = ddiv q_sum (of_count (length cell_instances));
          src' \<leftarrow> at_put src i j k q_avg;
          Some (src', Suc ring_index)
        } else Some (src, Suc ring_index))"

definition update_heat_source ::
  "heat_driver \<Rightarrow> double list \<Rightarrow> (nat \<Rightarrow> nat list) \<Rightarrow> heat_driver option" where
  "update_heat_source h Q r2c = do {
     (src, ring_index) \<leftarrow>
       for_loop 0 (n_pins h) (\<lambda>i.
         for_loop 0 (n_axial h) (\<lambda>j.
           for_loop 0 (n_rings h) (\<lambda>k. heat_source_ring h Q r2c i j k)))
         (zero_fill (source h), 0);
     Some (h\<lparr>source := src\<rparr>)
   }"

section \<open>Temperature projection\<close>

text \<open>
  The weight of one ring in \<open>update_temperature\<close>: the difference of the squared radii of
  its band, read from the fuel or the cladding grid. \<open>ring_index % n_rings()\<close> with
  \<open>n_rings() = 0\<close> is undefined behaviour, as are the unchecked reads outside a grid.
\<close>

definition ring_vol :: "heat_driver \<Rightarrow> nat \<Rightarrow> double option" where
  "ring_vol h ring_index =
     (if n_rings h = 0 then None
      else
        let i = ring_index mod n_rings h in
        if i < n_fuel_rings h then do {
          r_outer \<leftarrow> xt_get (r_grid_fuel h) (i + 1);
          r_inner \<leftarrow> xt_get (r_grid_fuel h) i;
          Some (dsub (dmul r_outer r_outer) (dmul r_inner r_inner))
        } else do {
          let j = i - n_fuel_rings h;
          r_outer \<leftarrow> xt_get (r_grid_clad h) (j + 1);
          r_inner \<leftarrow> xt_get (r_grid_clad h) j;
          Some (dsub (dmul r_outer r_outer) (dmul r_inner r_inner))
        })"

text \<open>
  The body of the loop over the rings of one cell instance; the state is
  \<open>(average_temp, total_vol)\<close>. The temperature is read from the flattened field.
\<close>

definition accumulate_ring ::
  "heat_driver \<Rightarrow> nat \<Rightarrow> double \<times> double \<Rightarrow> (double \<times> double) option" where
  "accumulate_ring h ring_index acc =
     (case acc of (average_temp, total_vol) \<Rightarrow> do {
        vol \<leftarrow> ring_vol h ring_index;
        t \<leftarrow> xt_get (storage (temperature h)) ring_index;
        Some (dadd average_temp (dmul t vol), dadd total_vol vol)
      })"

text \<open>The final division \<open>average_temp /= total_vol\<close> has no guard.\<close>

definition cell_average :: "heat_driver \<Rightarrow> nat list \<Rightarrow> double option" where
  "cell_average h rings = do {
     (average_temp, total_vol) \<leftarrow> for_each rings (accumulate_ring h) (Finite 0, Finite 0);
     Some (ddiv average_temp total_vol)
   }"

text \<open>
  \<open>update_temperature\<close>. The effect of \<open>c.set_temperature(average_temp)\<close> lies in the
  transport solver; the model returns the calls in the order they are made, each with the
  cell instance it is made on. \<open>c2r\<close> is \<open>cell_inst_to_ring_\<close>.
\<close>

definition update_temperature ::
  "heat_driver \<Rightarrow> 'c list \<Rightarrow> (nat \<Rightarrow> nat list) \<Rightarrow> ('c \<times> double) list option" where
  "update_temperature h cs c2r =
     for_loop 0 (length cs) (\<lambda>i calls. do {
       let c = cs ! i;
       let rings = c2r i;
       average_temp \<leftarrow> cell_average h rings;
       Some (calls @ [(c, average_temp)])
     }) []"

section \<open>Building the mappings\<close>

type_synonym position = "double \<times> double \<times> double"

text \<open>
  What \<open>init_mappings\<close> works on: the members \<open>openmc_driver_->cells_\<close>,
  \<open>cell_inst_to_ring_\<close> and \<open>ring_to_cell_inst_\<close>, its locals \<open>tracked\<close> and
  \<open>ring_index\<close>, and a record of the points at which a \<open>CellInstance\<close> was constructed
  (\<open>located\<close>, kept for the statements only). The two mapping tables are unordered maps
  from an index to a vector; an absent key reads as the empty vector.
\<close>

record 'c mappings =
  cells :: "'c list"
  tracked :: "'c \<rightharpoonup> nat"
  cell_inst_to_ring :: "nat \<Rightarrow> nat list"
  ring_to_cell_inst :: "nat \<Rightarrow> nat list"
  ring_index :: nat
  located :: "position list"

definition n_azimuthal :: nat where
  "n_azimuthal = 4"

text \<open>
  Modelled from the spec: \<open>openmc::PI\<close> comes from \<open>openmc/constants.h\<close>, outside this
  file; it is the constant \<open>\<pi>\<close> of the specification's angles \<open>2\<pi>\<cdot>m/n_azimuthal\<close>.
\<close>

definition PI :: double where
  "PI = Finite pi"

text \<open>\<open>tracked[c]\<close>: \<open>operator[]\<close> of an unordered map of ints reads an absent key as 0.\<close>

definition tracked_at :: "('c \<rightharpoonup> nat) \<Rightarrow> 'c \<Rightarrow> nat" where
  "tracked_at t c = (case t c of Some v \<Rightarrow> v | None \<Rightarrow> 0)"

text \<open>\<open>if (tracked.find(c) == tracked.end()) { cells_.push_back(c); tracked[c] = cells_.size() - 1; }\<close>\<close>

definition track :: "'c \<Rightarrow> 'c mappings \<Rightarrow> 'c mappings" where
  "track c st =
     (if tracked st c = None
      then let cs = cells st @ [c] in st\<lparr>cells := cs, tracked := (tracked st)(c \<mapsto> length cs - 1)\<rparr>
      else st)"

text \<open>The two \<open>push_back\<close>s that map the cell instance to the ring and the ring to it.\<close>

definition map_ring :: "'c \<Rightarrow> 'c mappings \<Rightarrow> 'c mappings" where
  "map_ring c st =
     (let array_index = tracked_at (tracked st) c in
      st\<lparr>cell_inst_to_ring :=
            (cell_inst_to_ring st)(array_index := cell_inst_to_ring st array_index @ [ring_index st]),
         ring_to_cell_inst :=
            (ring_to_cell_inst st)(ring_index st := ring_to_cell_inst st (ring_index st) @ [array_index])\<rparr>)"

text \<open>
  The body of the azimuthal loop. The constructor \<open>CellInstance c {r}\<close> asks the transport
  solver for the cell instance at the point; it is the parameter \<open>locate\<close>, and a point
  that resolves to no cell ends \<open>init_mappings\<close> with the solver's error (\<open>None\<close>).
  Two cell instances are the same key of \<open>tracked\<close> when they are equal as values of \<open>'c\<close>.
\<close>

definition azimuthal_sample ::
  "(position \<Rightarrow> 'c option) \<Rightarrow> double \<Rightarrow> double \<Rightarrow> nat \<Rightarrow> 'c mappings \<Rightarrow> 'c mappings option" where
  "azimuthal_sample locate ravg zavg m st = do {
     let theta = dadd (ddiv (dmul (dmul (Finite 2) (of_count m)) PI) (of_count n_azimuthal))
                      (Finite 0.01);
     let x = dmul ravg (dcos theta);
     let y = dmul ravg (dsin theta);
     let r = (x, y, zavg);
     c \<leftarrow> locate r;
     Some (map_ring c (track c (st\<lparr>located := located st @ [r]\<rparr>)))
   }"

text \<open>The body of the loop over the radial rings, with its \<open>++ring_index\<close>.\<close>

definition ring_samples ::
  "(position \<Rightarrow> 'c option) \<Rightarrow> heat_driver \<Rightarrow> double \<Rightarrow> nat \<Rightarrow> 'c mappings \<Rightarrow> 'c mappings option" where
  "ring_samples locate h zavg k st = do {
     ravg \<leftarrow>
       (if k < n_fuel_rings h then do {
          r_inner \<leftarrow> xt_get (r_grid_fuel h) k;
          r_outer \<leftarrow> xt_get (r_grid_fuel h) (k + 1);
          Some (dmul (Finite 0.5) (dadd r_inner r_outer))
        } else do {
          let m = k - n_fuel_rings h;
          r_inner \<leftarrow> xt_get (r_grid_clad h) m;
          r_outer \<leftarrow> xt_get (r_grid_clad h) (m + 1);
          Some (dmul (Finite 0.5) (dadd r_inner r_outer))
        });
     st' \<leftarrow> for_loop 0 n_azimuthal (azimuthal_sample locate ravg zavg) st;
     Some (st'\<lparr>ring_index := Suc (ring_index st')\<rparr>)
   }"

text \<open>The body of the loop over the axial layers.\<close>

definition axial_layer ::
  "(position \<Rightarrow> 'c option) \<Rightarrow> heat_driver \<Rightarrow> nat \<Rightarrow> 'c mappings \<Rightarrow> 'c mappings option" where
  "axial_layer locate h j st = do {
     z_lower \<leftarrow> xt_get (z h) j;
     z_upper \<leftarrow> xt_get (z h) (j + 1);
     let zavg = dmul (Finite 0.5) (dadd z_lower z_upper);
     for_loop 0 (n_rings h) (ring_samples locate h zavg) st
   }"

text \<open>
  \<open>init_mappings\<close>: the members come with \<open>st\<close>, the locals start empty and at 0. The pin
  loop runs \<open>centers.shape()[0]\<close> times and its index \<open>i\<close> is used by nothing in its body.
\<close>

definition init_mappings ::
  "(position \<Rightarrow> 'c option) \<Rightarrow> heat_driver \<Rightarrow> 'c mappings \<Rightarrow> 'c mappings option" where
  "init_mappings locate h st =
     (let nz = n_axial h; npins = length (pin_centers h) in
      for_loop 0 npins (\<lambda>i. for_loop 0 nz (axial_layer locate h))
        (st\<lparr>tracked := Map.empty, ring_index := 0\<rparr>))"

text \<open>
  The members as the constructor hands them to \<open>init_mappings\<close>: both mapping tables are
  default-constructed, and \<open>cs\<close> is the registry the transport driver starts with.
\<close>

definition constructed :: "'c list \<Rightarrow> 'c mappings" where
  "constructed cs =
     \<lparr>cells = cs, tracked = Map.empty, cell_inst_to_ring = (\<lambda>i. []),
      ring_to_cell_inst = (\<lambda>i. []), ring_index = 0, located = []\<rparr>"

section \<open>The coupling loop\<close>

text \<open>
  The calls \<open>solve_step\<close> makes, in the order it makes them. \<open>TransportSolve i\<close> is
  \<open>openmc_driver_->solve_step(i)\<close>.
\<close>

datatype event =
    TransportInit
  | TransportSolve int
  | TransportFinalize
  | Barrier
  | UpdateHeatSource
  | HeatSolve
  | UpdateTemperature

text \<open>
  The transport solver, a collaborator outside this file: its state is a type parameter and
  its operations are parameters. An operation that fails (throws) returns \<open>None\<close>.
\<close>

record ('c, 't) openmc_ops =
  openmc_active :: bool
  openmc_init_step :: "'t \<Rightarrow> 't option"
  openmc_solve_step :: "int \<Rightarrow> 't \<Rightarrow> 't option"
  openmc_finalize_step :: "'t \<Rightarrow> 't option"
  heat_source :: "double \<Rightarrow> 't \<Rightarrow> double list"
  set_temperature :: "'c \<Rightarrow> double \<Rightarrow> 't \<Rightarrow> 't"

text \<open>The heat-conduction solve, outside this file as well.\<close>

record heat_ops =
  heat_active :: bool
  heat_solve_step :: "heat_driver \<Rightarrow> heat_driver option"

text \<open>
  The members of \<open>OpenmcHeatDriver\<close>, the state of the transport solver, and the calls made
  so far (\<open>trace\<close>, kept for the statements only).
\<close>

record ('c, 't) coupled =
  power :: double
  max_timesteps :: int
  max_picard_iter :: int
  heat_driver :: heat_driver
  openmc_driver :: 't
  maps :: "'c mappings"
  trace :: "event list"

text \<open>A C++ \<open>int\<close> has 32 bits; signed overflow is undefined behaviour (\<open>None\<close>).\<close>

definition int_range :: "int \<Rightarrow> bool" where
  "int_range x \<longleftrightarrow> - (2 ^ 31) \<le> x \<and> x < 2 ^ 31"

definition checked_int :: "int \<Rightarrow> int option" where
  "checked_int x = (if int_range x then Some x else None)"

text \<open>\<open>for (int i = i0; i < n; ++i) body\<close> with an \<open>int\<close> bound read from the configuration.\<close>

function for_int :: "int \<Rightarrow> int \<Rightarrow> (int \<Rightarrow> 's \<Rightarrow> 's option) \<Rightarrow> 's \<Rightarrow> 's option" where
  "for_int i n body s =
     (if i < n
      then (case body i s of None \<Rightarrow> None | Some s' \<Rightarrow> for_int (i + 1) n body s')
      else Some s)"
  by pat_completeness auto
termination
  by (relation "measure (\<lambda>(i, n, body, s). nat (n - i))") auto

declare for_int.simps [simp del]

definition record_call :: "event \<Rightarrow> ('c, 't) coupled \<Rightarrow> ('c, 't) coupled" where
  "record_call e st = st\<lparr>trace := trace st @ [e]\<rparr>"

text \<open>The transport solve of one Picard iteration, made when the transport solver is active.\<close>

definition transport_solve ::
  "('c, 't) openmc_ops \<Rightarrow> int \<Rightarrow> int \<Rightarrow> ('c, 't) coupled \<Rightarrow> ('c, 't) coupled option" where
  "transport_solve T i_timestep i_picard st = do {
     t1 \<leftarrow> openmc_init_step T (openmc_driver st);
     let st1 = record_call TransportInit (st\<lparr>openmc_driver := t1\<rparr>);
     prod \<leftarrow> checked_int (i_timestep * max_timesteps st1);
     i \<leftarrow> checked_int (prod + i_picard);
     t2 \<leftarrow> openmc_solve_step T i (openmc_driver st1);
     let st2 = record_call (TransportSolve i) (st1\<lparr>openmc_driver := t2\<rparr>);
     t3 \<leftarrow> openmc_finalize_step T (openmc_driver st2);
     Some (record_call TransportFinalize (st2\<lparr>openmc_driver := t3\<rparr>))
   }"

text \<open>The body of the inner loop of \<open>solve_step\<close>.\<close>

definition picard_iteration ::
  "('c, 't) openmc_ops \<Rightarrow> heat_ops \<Rightarrow> int \<Rightarrow> int \<Rightarrow> ('c, 't) coupled \<Rightarrow> ('c, 't) coupled option" where
  "picard_iteration T H i_timestep i_picard st = do {
     st1 \<leftarrow> (if openmc_active T then transport_solve T i_timestep i_picard st else Some st);
     let st2 = record_call Barrier st1;
     h \<leftarrow> update_heat_source (heat_driver st2)
            (heat_source T (power st2) (openmc_driver st2)) (ring_to_cell_inst (maps st2));
     let st3 = record_call UpdateHeatSource (st2\<lparr>heat_driver := h\<rparr>);
     st4 \<leftarrow> (if heat_active H then do {
               h' \<leftarrow> heat_solve_step H (heat_driver st3);
               Some (record_call HeatSolve (st3\<lparr>heat_driver := h'\<rparr>))
             } else Some st3);
     let st5 = record_call Barrier st4;
     calls \<leftarrow> update_temperature (heat_driver st5) (cells (maps st5))
                (cell_inst_to_ring (maps st5));
     let t = fold (\<lambda>(c, v). set_temperature T c v) calls (openmc_driver st5);
     Some (record_call UpdateTemperature (st5\<lparr>openmc_driver := t\<rparr>))
   }"

definition solve_step ::
  "('c, 't) openmc_ops \<Rightarrow> heat_ops \<Rightarrow> ('c, 't) coupled \<Rightarrow> ('c, 't) coupled option" where
  "solve_step T H st =
     for_int 0 (max_timesteps st) (\<lambda>i_timestep st'.
       for_int 0 (max_picard_iter st') (\<lambda>i_picard. picard_iteration T H i_timestep i_picard) st')
       st"

section \<open>The specification's notions\<close>

text \<open>
  The real number a finite double stands for.
\<close>

fun real_of :: "double \<Rightarrow> real" where
  "real_of (Finite a) = a"
| "real_of NonFinite = 0"


text \<open>
  The weight of a ring in the temperature average, as the specification words it: the
  difference of the squared outer and inner radius of the ring's band, from the fuel grid
  when the ring's position in the radial stack is below \<open>n_fuel_rings\<close> and from the
  cladding grid otherwise.
\<close>

definition ring_weight :: "heat_driver \<Rightarrow> nat \<Rightarrow> real" where
  "ring_weight h r =
     (let s = r mod n_rings h in
      if s < n_fuel_rings h
      then (real_of (r_grid_fuel h ! (s + 1)))\<^sup>2 - (real_of (r_grid_fuel h ! s))\<^sup>2
      else (real_of (r_grid_clad h ! (s - n_fuel_rings h + 1)))\<^sup>2
           - (real_of (r_grid_clad h ! (s - n_fuel_rings h)))\<^sup>2)"

text \<open>
  The midpoint radius of ring \<open>k\<close> and the midpoint height of layer \<open>j\<close>.
\<close>

definition ring_midradius :: "heat_driver \<Rightarrow> nat \<Rightarrow> real" where
  "ring_midradius h k =
     (if k < n_fuel_rings h
      then (real_of (r_grid_fuel h ! k) + real_of (r_grid_fuel h ! (k + 1))) / 2
      else (real_of (r_grid_clad h ! (k - n_fuel_rings h))
            + real_of (r_grid_clad h ! (k - n_fuel_rings h + 1))) / 2)"

definition layer_midheight :: "heat_driver \<Rightarrow> nat \<Rightarrow> real" where
  "layer_midheight h j = (real_of (z h ! j) + real_of (z h ! (j + 1))) / 2"

text \<open>
  The angle of azimuthal sample \<open>m\<close>: \<open>2\<pi>m/4\<close> plus the bias 0.01.
\<close>

definition sample_angle :: "nat \<Rightarrow> real" where
  "sample_angle m = 2 * pi * real m / 4 + 0.01"

text \<open>
  The point the specification gives for layer \<open>j\<close>, ring \<open>k\<close> and sample \<open>m\<close>. No pin index
  and no pin centre occurs in it.
\<close>

definition sample_point :: "heat_driver \<Rightarrow> nat \<Rightarrow> nat \<Rightarrow> nat \<Rightarrow> position" where
  "sample_point h j k m =
     (Finite (ring_midradius h k * cos (sample_angle m)),
      Finite (ring_midradius h k * sin (sample_angle m)),
      Finite (layer_midheight h j))"

text \<open>
  The calls of one Picard iteration whose transport solve has the index \<open>i\<close>, for a given
  activity of the two solvers.
\<close>

definition picard_events :: "bool \<Rightarrow> bool \<Rightarrow> int \<Rightarrow> event list" where
  "picard_events transport heat i =
     (if transport then [TransportInit, TransportSolve i, TransportFinalize] else [])
     @ [Barrier, UpdateHeatSource]
     @ (if heat then [HeatSolve] else [])
     @ [Barrier, UpdateTemperature]"

text \<open>
  One Picard iteration with both solvers active: the transport solve (initialize, advance,
  finalize), a barrier, the heat-source projection, the heat-conduction solve, a barrier,
  the temperature projection.
\<close>

definition coupled_iteration :: "int \<Rightarrow> event list" where
  "coupled_iteration i =
     [TransportInit, TransportSolve i, TransportFinalize, Barrier, UpdateHeatSource,
      HeatSolve, Barrier, UpdateTemperature]"

text \<open>
  The indices of the transport solves in a sequence of calls, in order.
\<close>

fun solve_indices :: "event list \<Rightarrow> int list" where
  "solve_indices [] = []"
| "solve_indices (TransportSolve i # es) = i # solve_indices es"
| "solve_indices (e # es) = solve_indices es"

section \<open>Invariants\<close>



text \<open>
  Two tensors of the same shape and the same number of elements.
\<close>

definition same_extent :: "xtensor3 \<Rightarrow> xtensor3 \<Rightarrow> bool" where
  "same_extent t t' \<longleftrightarrow> shape t' = shape t \<and> length (storage t') = length (storage t)"

text \<open>
  Invariants of \<open>init_mappings\<close>, stated after \<open>m\<close> samples of the current ring. The rings
  before the current one have one entry per sample, the current one has \<open>m\<close>, the later
  ones none.
\<close>

definition rings_inv :: "nat \<Rightarrow> 'c mappings \<Rightarrow> bool" where
  "rings_inv m s \<longleftrightarrow>
     length (ring_to_cell_inst s (ring_index s)) = m \<and>
     (\<forall>r<ring_index s. length (ring_to_cell_inst s r) = n_azimuthal) \<and>
     (\<forall>r>ring_index s. ring_to_cell_inst s r = [])"

text \<open>
  Both tables hold the same pairs.
\<close>

definition consistent :: "'c mappings \<Rightarrow> bool" where
  "consistent s \<longleftrightarrow>
     (\<forall>r c. r \<in> set (cell_inst_to_ring s c) \<longleftrightarrow> c \<in> set (ring_to_cell_inst s r))"

text \<open>
  With \<open>n0\<close> cell instances in the registry at the start: \<open>tracked\<close> holds the registry
  index of every cell instance it knows, every entry of the forward table is the index of
  a cell instance registered since, and each of these is an entry of some ring.
\<close>

definition registry_inv :: "nat \<Rightarrow> 'c mappings \<Rightarrow> bool" where
  "registry_inv n0 s \<longleftrightarrow>
     n0 \<le> length (cells s) \<and>
     (\<forall>c a. tracked s c = Some a \<longrightarrow> n0 \<le> a \<and> a < length (cells s) \<and> cells s ! a = c) \<and>
     (\<forall>r. \<forall>a\<in>set (ring_to_cell_inst s r). n0 \<le> a \<and> a < length (cells s)) \<and>
     (\<forall>a. n0 \<le> a \<and> a < length (cells s) \<longrightarrow> (\<exists>r\<le>ring_index s. a \<in> set (ring_to_cell_inst s r)))"

text \<open>
  Sample \<open>q\<close> of ring \<open>r\<close> is the point number \<open>n_azimuthal * r + q\<close> that was located, and
  entry \<open>q\<close> of the ring is the registry index of the cell instance found there.
\<close>

definition located_inv :: "(position \<Rightarrow> 'c option) \<Rightarrow> 'c mappings \<Rightarrow> bool" where
  "located_inv locate s \<longleftrightarrow>
     length (located s) = n_azimuthal * ring_index s + length (ring_to_cell_inst s (ring_index s)) \<and>
     (\<forall>r\<le>ring_index s. \<forall>q<length (ring_to_cell_inst s r).
        locate (located s ! (n_azimuthal * r + q)) = Some (cells s ! (ring_to_cell_inst s r ! q)))"

text \<open>
  What one azimuthal sample does to the state when the point \<open>p\<close> resolves to the cell
  instance \<open>c\<close>, whose registry index is \<open>a\<close>.
\<close>

definition sample_effect ::
  "(position \<Rightarrow> 'c option) \<Rightarrow> position \<Rightarrow> 'c \<Rightarrow> nat \<Rightarrow> 'c mappings \<Rightarrow> 'c mappings \<Rightarrow> bool" where
  "sample_effect locate p c a s s' \<longleftrightarrow>
     locate p = Some c \<and>
     (tracked s c = None \<and> a = length (cells s) \<and> cells s' = cells s @ [c]
        \<and> tracked s' = (tracked s)(c \<mapsto> a)
      \<or> tracked s c = Some a \<and> cells s' = cells s \<and> tracked s' = tracked s) \<and>
     cell_inst_to_ring s' = (cell_inst_to_ring s)(a := cell_inst_to_ring s a @ [ring_index s]) \<and>
     ring_to_cell_inst s' =
       (ring_to_cell_inst s)(ring_index s := ring_to_cell_inst s (ring_index s) @ [a]) \<and>
     ring_index s' = ring_index s \<and>
     located s' = located s @ [p]"

text \<open>
  \<open>tracked\<close> knows every cell instance registered since the start, under its registry index.
\<close>

definition tracked_inv :: "nat \<Rightarrow> 'c mappings \<Rightarrow> bool" where
  "tracked_inv n0 s \<longleftrightarrow>
     (\<forall>a. n0 \<le> a \<and> a < length (cells s) \<longrightarrow> tracked s (cells s ! a) = Some a)"

definition mapping_inv :: "(position \<Rightarrow> 'c option) \<Rightarrow> nat \<Rightarrow> nat \<Rightarrow> 'c mappings \<Rightarrow> bool" where
  "mapping_inv locate n0 m s \<longleftrightarrow>
     rings_inv m s \<and> consistent s \<and> registry_inv n0 s \<and> tracked_inv n0 s
     \<and> located_inv locate s"

section \<open>A worked configuration\<close>

text \<open>
  A heat-conduction grid of one pin, two axial layers and two rings (one of fuel, one of
  cladding), with a heat-source field that holds values of an earlier iteration.
\<close>

definition example_heat :: heat_driver where
  "example_heat =
     \<lparr>n_pins = 1, n_axial = 2, n_fuel_rings = 1, n_clad_rings = 1,
      r_grid_fuel = [Finite 0, Finite 1], r_grid_clad = [Finite 1, Finite 2],
      z = [Finite 0, Finite 4, Finite 10], pin_centers = [(Finite 3, Finite 5)],
      source = \<lparr>shape = (1, 2, 2), storage = [Finite 7, Finite 9, NonFinite, Finite 1]\<rparr>,
      temperature = \<lparr>shape = (1, 2, 2),
                     storage = [Finite 300, Finite 320, Finite 400, Finite 440]\<rparr>\<rparr>"

text \<open>
  A transport geometry of two cell instances, 10 below the height 4 and 20 above.
\<close>

definition by_height :: "position \<Rightarrow> nat option" where
  "by_height p =
     (case p of (x, y, Finite zz) \<Rightarrow> Some (if zz < 4 then 10 else 20) | (x, y, NonFinite) \<Rightarrow> None)"

text \<open>
  The mappings \<open>init_mappings\<close> builds for them.
\<close>

definition example_mappings :: "nat mappings" where
  "example_mappings =
     \<lparr>cells = [10, 20], tracked = [10 \<mapsto> 0, 20 \<mapsto> 1],
      cell_inst_to_ring = (\<lambda>i. [])(0 := [0, 0, 0, 0, 1, 1, 1, 1], 1 := [2, 2, 2, 2, 3, 3, 3, 3]),
      ring_to_cell_inst =
        (\<lambda>i. [])(0 := [0, 0, 0, 0], 1 := [0, 0, 0, 0], 2 := [1, 1, 1, 1], 3 := [1, 1, 1, 1]),
      ring_index = 4,
      located = [sample_point example_heat j k m. j \<leftarrow> [0, 1], k \<leftarrow> [0, 1], m \<leftarrow> [0, 1, 2, 3]]\<rparr>"

text \<open>
  Heat generation of the two cell instances, and the heat driver after the projection.
\<close>

definition example_Q :: "double list" where
  "example_Q = [Finite 10, Finite 30]"

definition example_heated :: heat_driver where
  "example_heated =
     example_heat\<lparr>source := \<lparr>shape = (1, 2, 2),
                               storage = [Finite 10, Finite 0, Finite 30, Finite 0]\<rparr>\<rparr>"

text \<open>
  The temperatures the projection sets.
\<close>

definition example_calls :: "(nat \<times> double) list" where
  "example_calls = [(10, Finite 315), (20, Finite 430)]"

text \<open>
  A fuel grid whose only band has no width, and a cell instance mapped to fuel rings only.
\<close>

definition degenerate_heat :: heat_driver where
  "degenerate_heat = example_heat\<lparr>r_grid_fuel := [Finite 1, Finite 1]\<rparr>"

definition fuel_rings_only :: "nat \<Rightarrow> nat list" where
  "fuel_rings_only i = [0, 2]"

text \<open>
  Collaborators for a run of the coupling loop: the transport solver's state is the list
  of the iteration indices it was advanced with.
\<close>

definition example_openmc :: "(nat, int list) openmc_ops" where
  "example_openmc =
     \<lparr>openmc_active = True, openmc_init_step = Some,
      openmc_solve_step = (\<lambda>i t. Some (t @ [i])), openmc_finalize_step = Some,
      heat_source = (\<lambda>p t. example_Q), set_temperature = (\<lambda>c v t. t)\<rparr>"

definition example_conduction :: heat_ops where
  "example_conduction = \<lparr>heat_active = True, heat_solve_step = Some\<rparr>"

definition example_coupled :: "int \<Rightarrow> int \<Rightarrow> (nat, int list) coupled" where
  "example_coupled n_timesteps n_picard =
     \<lparr>power = Finite 1, max_timesteps = n_timesteps, max_picard_iter = n_picard,
      heat_driver = example_heat, openmc_driver = [], maps = example_mappings, trace = []\<rparr>"

definition example_solved :: "int \<Rightarrow> int \<Rightarrow> int list \<Rightarrow> (nat, int list) coupled" where
  "example_solved n_timesteps n_picard is =
     \<lparr>power = Finite 1, max_timesteps = n_timesteps, max_picard_iter = n_picard,
      heat_driver = example_heated, openmc_driver = is, maps = example_mappings,
      trace = concat (map coupled_iteration is)\<rparr>"

section \<open>Loops\<close>

lemma for_loop_upt: "for_loop i n body s = for_each [i..<n] body s"
proof (induction i n body s rule: for_loop.induct)
  case (1 i n body s)
  show ?case
  proof (cases "i < n")
    case True
    then show ?thesis
      using 1 by (subst for_loop.simps) (simp add: upt_conv_Cons split: option.splits)
  next
    case False
    then show ?thesis by (subst for_loop.simps) simp
  qed
qed

lemma for_each_invariant:
  assumes "for_each xs body s = Some s'" and "I s"
    and "\<And>x t t'. x \<in> set xs \<Longrightarrow> I t \<Longrightarrow> body x t = Some t' \<Longrightarrow> I t'"
  shows "I s'"
  using assms
proof (induction xs arbitrary: s)
  case Nil
  then show ?case by simp
next
  case (Cons x xs)
  from Cons.prems(1) obtain t where t: "body x s = Some t" and rest: "for_each xs body t = Some s'"
    by (auto split: option.splits)
  have It: "I t" using Cons.prems(3) [OF _ Cons.prems(2) t] by simp
  show ?case
  proof (rule Cons.IH [OF rest It])
    fix y u u' assume "y \<in> set xs" "I u" "body y u = Some u'"
    then show "I u'" using Cons.prems(3) [of y u u'] by simp
  qed
qed

lemma for_loop_invariant:
  assumes "for_loop i n body s = Some s'" and "i \<le> n" and "P i s"
    and "\<And>k t t'. i \<le> k \<Longrightarrow> k < n \<Longrightarrow> P k t \<Longrightarrow> body k t = Some t' \<Longrightarrow> P (Suc k) t'"
  shows "P n s'"
  using assms
proof (induction i n body s rule: for_loop.induct)
  case (1 i n body s)
  show ?case
  proof (cases "i < n")
    case True
    from "1.prems"(1) True obtain t where t: "body i s = Some t"
      and rest: "for_loop (Suc i) n body t = Some s'"
      by (subst (asm) for_loop.simps) (auto split: option.splits)
    have Pt: "P (Suc i) t" using "1.prems"(3,4) True t by simp
    show ?thesis
      using "1.IH" [OF True t rest _ Pt] True "1.prems"(4) by simp
  next
    case False
    with "1.prems" show ?thesis by (subst (asm) for_loop.simps) simp
  qed
qed

lemma for_each_returns:
  assumes "I s"
    and "\<And>x t. x \<in> set xs \<Longrightarrow> I t \<Longrightarrow> \<exists>t'. body x t = Some t' \<and> I t'"
  shows "\<exists>s'. for_each xs body s = Some s' \<and> I s'"
  using assms
proof (induction xs arbitrary: s)
  case Nil
  then show ?case by simp
next
  case (Cons x xs)
  from Cons.prems(2) [of x s] Cons.prems(1) obtain t where t: "body x s = Some t" "I t"
    by auto
  have "\<exists>s'. for_each xs body t = Some s' \<and> I s'"
    by (rule Cons.IH [OF t(2)]) (use Cons.prems(2) in auto)
  then show ?case using t by simp
qed

lemma for_loop_returns:
  assumes "P i s"
    and "\<And>k t. i \<le> k \<Longrightarrow> k < n \<Longrightarrow> P k t \<Longrightarrow> \<exists>t'. body k t = Some t' \<and> P (Suc k) t'"
    and "i \<le> n"
  shows "\<exists>s'. for_loop i n body s = Some s' \<and> P n s'"
  using assms
proof (induction i n body s rule: for_loop.induct)
  case (1 i n body s)
  show ?case
  proof (cases "i < n")
    case True
    from "1.prems"(2) [of i s] "1.prems"(1) True obtain t
      where t: "body i s = Some t" "P (Suc i) t" by auto
    have "\<exists>s'. for_loop (Suc i) n body t = Some s' \<and> P n s'"
      by (rule "1.IH" [OF True t(1) t(2)]) (use True "1.prems"(2) in auto)
    then show ?thesis using True t(1) by (subst for_loop.simps) simp
  next
    case False
    then show ?thesis using "1.prems" by (subst for_loop.simps) simp
  qed
qed

section \<open>Properties of the heat-source projection\<close>














lemma heat_source_ring_extent:
  assumes "heat_source_ring h Q r2c i j k st = Some st'" and "same_extent t (fst st)"
  shows "same_extent t (fst st')"
  using assms
  by (cases st) (auto simp: heat_source_ring_def same_extent_def at_put_def Let_def
      split: if_splits bind_splits)

lemma heat_source_loops_extent:
  assumes "for_loop 0 np (\<lambda>i. for_loop 0 na (\<lambda>j.
             for_loop 0 nr (\<lambda>k. heat_source_ring h Q r2c i j k))) st = Some st'"
  shows "same_extent (fst st) (fst st')"
proof -
  let ?I = "\<lambda>s. same_extent (fst st) (fst s)"
  have ring: "?I s'" if "for_loop 0 nr (\<lambda>k. heat_source_ring h Q r2c i j k) s = Some s'" "?I s"
    for i j s s'
    using that(1) [unfolded for_loop_upt] that(2)
    by (rule for_each_invariant) (rule heat_source_ring_extent)
  have axial: "?I s'"
    if "for_loop 0 na (\<lambda>j. for_loop 0 nr (\<lambda>k. heat_source_ring h Q r2c i j k)) s = Some s'" "?I s"
    for i s s'
    using that(1) [unfolded for_loop_upt] that(2)
    by (rule for_each_invariant) (rule ring [unfolded for_loop_upt])
  show ?thesis
    using assms [unfolded for_loop_upt]
    by (rule for_each_invariant) (simp add: same_extent_def, rule axial [unfolded for_loop_upt])
qed

lemma zero_fill_extent: "same_extent t t' \<Longrightarrow> zero_fill t' = zero_fill t"
  by (simp add: same_extent_def zero_fill_def map_replicate_const)

lemma same_extent_zero_fill: "same_extent t (zero_fill t)"
  by (simp add: same_extent_def zero_fill_def)

lemma same_extent_trans: "same_extent a b \<Longrightarrow> same_extent b c \<Longrightarrow> same_extent a c"
  by (simp add: same_extent_def)

lemma heat_source_ring_cong: "heat_source_ring (h\<lparr>source := s\<rparr>) = heat_source_ring h"
  by (intro ext) (simp add: heat_source_ring_def)

text \<open>
  C10. \<open>update_heat_source\<close> is idempotent: run again on its own result, with the same heat
  generation, mapping and grid dimensions, it returns that result unchanged. The zeroing
  at its start resets whatever the field held.
\<close>

theorem update_heat_source_idempotent:
  assumes run: "update_heat_source h Q r2c = Some h'"
  shows "update_heat_source h' Q r2c = Some h'"
proof -
  from run obtain src r where loop: "for_loop 0 (n_pins h)
       (\<lambda>i. for_loop 0 (n_axial h)
          (\<lambda>j. for_loop 0 (n_rings h) (\<lambda>k. heat_source_ring h Q r2c i j k)))
       (zero_fill (source h), 0) = Some (src, r)" and h': "h' = h\<lparr>source := src\<rparr>"
    by (auto simp: update_heat_source_def split: bind_splits)
  have "same_extent (zero_fill (source h)) src"
    using heat_source_loops_extent [OF loop] by simp
  then have "same_extent (source h) src"
    using same_extent_zero_fill same_extent_trans by blast
  then have z: "zero_fill src = zero_fill (source h)" by (rule zero_fill_extent)
  show ?thesis
    by (simp add: update_heat_source_def h' heat_source_ring_cong n_rings_def z
        loop [unfolded n_rings_def])
qed

lemma q_loop_returns:
  assumes "\<forall>idx\<in>set cs. idx < length Q"
  shows "\<exists>q. for_each cs (q_accumulate Q) acc = Some q"
proof -
  have "\<exists>s'. for_each cs (q_accumulate Q) acc = Some s' \<and> True"
    by (rule for_each_returns) (use assms in \<open>auto simp: q_accumulate_def xt_get_def\<close>)
  then show ?thesis by simp
qed

text \<open>On a field of the grid's extent, with every mapped cell instance of a fuel ring inside
  the heat-generation array, the projection returns.\<close>

lemma update_heat_source_returns:
  assumes shp: "shape (source h) = (n_pins h, n_axial h, n_rings h)"
    and Q: "\<And>i j k. i < n_pins h \<Longrightarrow> j < n_axial h \<Longrightarrow> k < n_fuel_rings h \<Longrightarrow> k < n_rings h \<Longrightarrow>
              \<forall>idx\<in>set (r2c ((i * n_axial h + j) * n_rings h + k)). idx < length Q"
  shows "\<exists>h'. update_heat_source h Q r2c = Some h'"
proof -
  let ?sh = "(n_pins h, n_axial h, n_rings h)"
  let ?P = "\<lambda>r st. snd st = r \<and> shape (fst st) = ?sh"
  have ring: "\<exists>t'. heat_source_ring h Q r2c i j k t = Some t'
                  \<and> ?P (Suc ((i * n_axial h + j) * n_rings h + k)) t'"
    if i: "i < n_pins h" and j: "j < n_axial h" and k: "k < n_rings h"
      and P: "?P ((i * n_axial h + j) * n_rings h + k) t"
    for i j k t
  proof (cases "k < n_fuel_rings h")
    case True
    obtain src r where t: "t = (src, r)" by (cases t)
    from q_loop_returns [OF Q [OF i j True k], of "Finite 0"]
    obtain q where q: "for_each (r2c r) (q_accumulate Q) (Finite 0) = Some q"
      using P t by auto
    show ?thesis
      using True i j k P t q by (simp add: heat_source_ring_def at_put_def in_shape_def)
  next
    case False
    then show ?thesis using P by (cases t) (simp add: heat_source_ring_def)
  qed
  have rings: "\<exists>t'. for_loop 0 (n_rings h) (heat_source_ring h Q r2c i j) t = Some t'
                  \<and> ?P ((i * n_axial h + Suc j) * n_rings h) t'"
    if "i < n_pins h" "j < n_axial h" "?P ((i * n_axial h + j) * n_rings h) t" for i j t
  proof -
    have "\<exists>t'. for_loop 0 (n_rings h) (heat_source_ring h Q r2c i j) t = Some t'
              \<and> ?P ((i * n_axial h + j) * n_rings h + n_rings h) t'"
      by (rule for_loop_returns
            [where P = "\<lambda>k. ?P ((i * n_axial h + j) * n_rings h + k)"])
         (use that ring in auto)
    then show ?thesis by (simp add: algebra_simps)
  qed
  have axial: "\<exists>t'. for_loop 0 (n_axial h)
                  (\<lambda>j. for_loop 0 (n_rings h) (heat_source_ring h Q r2c i j)) t = Some t'
                  \<and> ?P (Suc i * n_axial h * n_rings h) t'"
    if "i < n_pins h" "?P (i * n_axial h * n_rings h) t" for i t
  proof -
    have "\<exists>t'. for_loop 0 (n_axial h)
                  (\<lambda>j. for_loop 0 (n_rings h) (heat_source_ring h Q r2c i j)) t = Some t'
              \<and> ?P ((i * n_axial h + n_axial h) * n_rings h) t'"
      by (rule for_loop_returns [where P = "\<lambda>j. ?P ((i * n_axial h + j) * n_rings h)"])
         (use that rings in auto)
    then show ?thesis by (simp add: algebra_simps)
  qed
  have "\<exists>t'. for_loop 0 (n_pins h) (\<lambda>i. for_loop 0 (n_axial h)
                  (\<lambda>j. for_loop 0 (n_rings h) (heat_source_ring h Q r2c i j)))
                (zero_fill (source h), 0) = Some t'
            \<and> ?P (n_pins h * n_axial h * n_rings h) t'"
    by (rule for_loop_returns [where P = "\<lambda>i. ?P (i * n_axial h * n_rings h)"])
       (use shp axial in \<open>auto simp: zero_fill_def\<close>)
  then show ?thesis by (auto simp: update_heat_source_def)
qed

section \<open>Properties of the temperature projection\<close>

lemma xt_get_finite:
  assumes "xt_get xs i = Some v" and "NonFinite \<notin> set xs"
  shows "v = Finite (real_of (xs ! i))"
proof -
  from assms(1) have i: "i < length xs" and v: "v = xs ! i"
    by (auto simp: xt_get_def split: if_splits)
  from i assms(2) have "xs ! i \<noteq> NonFinite" by (metis nth_mem)
  then show ?thesis using v by (cases "xs ! i") auto
qed

lemma ring_vol_finite:
  assumes "ring_vol h r = Some v"
    and "NonFinite \<notin> set (r_grid_fuel h)" and "NonFinite \<notin> set (r_grid_clad h)"
  shows "v = Finite (ring_weight h r)"
proof (cases "r mod n_rings h < n_fuel_rings h")
  case True
  with assms(1) obtain a b where a: "xt_get (r_grid_fuel h) (r mod n_rings h + 1) = Some a"
    and b: "xt_get (r_grid_fuel h) (r mod n_rings h) = Some b"
    and v: "v = dsub (dmul a a) (dmul b b)"
    by (auto simp: ring_vol_def Let_def split: if_splits bind_splits)
  show ?thesis
    using True v xt_get_finite [OF a assms(2)] xt_get_finite [OF b assms(2)]
    by (simp add: ring_weight_def Let_def power2_eq_square)
next
  case False
  with assms(1) obtain a b
    where a: "xt_get (r_grid_clad h) (r mod n_rings h - n_fuel_rings h + 1) = Some a"
    and b: "xt_get (r_grid_clad h) (r mod n_rings h - n_fuel_rings h) = Some b"
    and v: "v = dsub (dmul a a) (dmul b b)"
    by (auto simp: ring_vol_def Let_def split: if_splits bind_splits)
  show ?thesis
    using False v xt_get_finite [OF a assms(3)] xt_get_finite [OF b assms(3)]
    by (simp add: ring_weight_def Let_def power2_eq_square)
qed

lemma accumulate_ring_sums:
  assumes "for_each rings (accumulate_ring h) (Finite a, Finite b) = Some (x, y)"
    and "NonFinite \<notin> set (r_grid_fuel h)" and "NonFinite \<notin> set (r_grid_clad h)"
    and "NonFinite \<notin> set (storage (temperature h))"
  shows "x = Finite (a + (\<Sum>r\<leftarrow>rings. ring_weight h r * real_of (storage (temperature h) ! r)))
       \<and> y = Finite (b + (\<Sum>r\<leftarrow>rings. ring_weight h r))"
  using assms(1)
proof (induction rings arbitrary: a b)
  case Nil
  then show ?case by simp
next
  case (Cons r rings)
  from Cons.prems obtain acc where acc: "accumulate_ring h r (Finite a, Finite b) = Some acc"
    and rest0: "for_each rings (accumulate_ring h) acc = Some (x, y)"
    by (auto split: option.splits)
  from acc obtain vol t where vol: "ring_vol h r = Some vol"
    and t: "xt_get (storage (temperature h)) r = Some t"
    and acc': "acc = (dadd (Finite a) (dmul t vol), dadd (Finite b) vol)"
    by (auto simp: accumulate_ring_def split: bind_splits)
  note rest = rest0 [unfolded acc']
  have vol': "vol = Finite (ring_weight h r)" by (rule ring_vol_finite [OF vol assms(2,3)])
  have t': "t = Finite (real_of (storage (temperature h) ! r))"
    by (rule xt_get_finite [OF t assms(4)])
  show ?case
    using Cons.IH [OF rest [unfolded vol' t' dadd.simps dmul.simps]]
    by (simp add: algebra_simps)
qed

lemma cell_average_value:
  assumes "cell_average h rings = Some v"
    and "NonFinite \<notin> set (r_grid_fuel h)" and "NonFinite \<notin> set (r_grid_clad h)"
    and "NonFinite \<notin> set (storage (temperature h))"
  shows "v = (if (\<Sum>r\<leftarrow>rings. ring_weight h r) = 0 then NonFinite
              else Finite ((\<Sum>r\<leftarrow>rings. ring_weight h r * real_of (storage (temperature h) ! r))
                           / (\<Sum>r\<leftarrow>rings. ring_weight h r)))"
proof -
  from assms(1) obtain x y
    where loop: "for_each rings (accumulate_ring h) (Finite 0, Finite 0) = Some (x, y)"
      and v: "v = ddiv x y"
    by (auto simp: cell_average_def split: bind_splits)
  show ?thesis using accumulate_ring_sums [OF loop assms(2-4)] v by simp
qed

lemma update_temperature_calls:
  assumes "update_temperature h cs c2r = Some calls"
  shows "length calls = length cs
       \<and> (\<forall>i<length cs. \<exists>v. cell_average h (c2r i) = Some v \<and> calls ! i = (cs ! i, v))"
proof -
  let ?P = "\<lambda>k calls. length calls = k
              \<and> (\<forall>i<k. \<exists>v. cell_average h (c2r i) = Some v \<and> calls ! i = (cs ! i, v))"
  have "?P (length cs) calls"
  proof (rule for_loop_invariant [OF assms [unfolded update_temperature_def], where P = ?P])
    fix k t t'
    assume P: "?P k t"
      and step: "do { let c = cs ! k; let rings = c2r k;
                      average_temp \<leftarrow> cell_average h rings;
                      Some (t @ [(c, average_temp)]) } = Some t'"
    from step obtain v where v: "cell_average h (c2r k) = Some v" and t': "t' = t @ [(cs ! k, v)]"
      by (auto simp: Let_def split: bind_splits)
    show "?P (Suc k) t'"
      using P v unfolding t' by (auto simp: less_Suc_eq nth_append)
  qed simp_all
  then show ?thesis .
qed


text \<open>
  C9. The division \<open>average_temp / total_vol\<close> is not guarded: for a cell instance whose
  mapped rings have the total weight 0, the divisor is 0 and \<open>update_temperature\<close> sets a
  non-finite temperature.
\<close>

theorem update_temperature_zero_weight:
  assumes "update_temperature h cs c2r = Some calls" and "i < length cs"
    and "NonFinite \<notin> set (r_grid_fuel h)" and "NonFinite \<notin> set (r_grid_clad h)"
    and "NonFinite \<notin> set (storage (temperature h))"
    and "(\<Sum>r\<leftarrow>c2r i. ring_weight h r) = 0"
  shows "calls ! i = (cs ! i, NonFinite)"
proof -
  from update_temperature_calls [OF assms(1)] assms(2)
  obtain v where v: "cell_average h (c2r i) = Some v" and c: "calls ! i = (cs ! i, v)"
    by blast
  show ?thesis using cell_average_value [OF v assms(3-5)] assms(6) c by simp
qed

lemma ring_vol_returns:
  assumes "0 < n_rings h" and "n_fuel_rings h < length (r_grid_fuel h)"
    and "n_clad_rings h < length (r_grid_clad h)"
  shows "\<exists>vol. ring_vol h r = Some vol"
proof -
  have lt: "r mod n_rings h < n_fuel_rings h + n_clad_rings h"
    using assms(1) by (simp add: n_rings_def)
  show ?thesis
    using assms lt by (auto simp: ring_vol_def xt_get_def Let_def)
qed

text \<open>With at least one ring per pin and layer, grids of one more entry than they have rings,
  and every mapped ring inside the temperature field, the projection returns.\<close>

lemma update_temperature_returns:
  assumes nr: "0 < n_rings h" and rf: "n_fuel_rings h < length (r_grid_fuel h)"
    and rc: "n_clad_rings h < length (r_grid_clad h)"
    and rings: "\<And>i. i < length cs \<Longrightarrow> \<forall>r\<in>set (c2r i). r < length (storage (temperature h))"
  shows "\<exists>calls. update_temperature h cs c2r = Some calls"
proof -
  have cell: "\<exists>v. cell_average h (c2r i) = Some v" if i: "i < length cs" for i
  proof -
    have "\<exists>acc. for_each (c2r i) (accumulate_ring h) (Finite 0, Finite 0) = Some acc \<and> True"
    proof (rule for_each_returns)
      fix r t assume r: "r \<in> set (c2r i)"
      obtain vol where vol: "ring_vol h r = Some vol"
        using ring_vol_returns [OF nr rf rc] by blast
      have "r < length (storage (temperature h))" using rings [OF i] r by blast
      then show "\<exists>t'. accumulate_ring h r t = Some t' \<and> True"
        using vol by (cases t) (simp add: accumulate_ring_def xt_get_def)
    qed simp
    then show ?thesis by (auto simp: cell_average_def)
  qed
  have "\<exists>calls. for_loop 0 (length cs) (\<lambda>i calls. do {
       let c = cs ! i;
       let rings = c2r i;
       average_temp \<leftarrow> cell_average h rings;
       Some (calls @ [(c, average_temp)])
     }) [] = Some calls \<and> True"
  proof (rule for_loop_returns [where P = "\<lambda>k t. True"])
    fix k t assume "k < length cs"
    then obtain v where "cell_average h (c2r k) = Some v" using cell by blast
    then show "\<exists>t'. do {
       let c = cs ! k;
       let rings = c2r k;
       average_temp \<leftarrow> cell_average h rings;
       Some (t @ [(c, average_temp)])
     } = Some t' \<and> True" by (simp add: Let_def)
  qed simp_all
  then show ?thesis by (simp add: update_temperature_def)
qed

section \<open>Properties of the mappings\<close>

lemma azimuthal_sample_effect:
  assumes "azimuthal_sample locate ravg zavg m s = Some s'"
  shows "\<exists>p c a. sample_effect locate p c a s s'"
proof -
  from assms obtain p c where c: "locate p = Some c"
    and s': "s' = map_ring c (track c (s\<lparr>located := located s @ [p]\<rparr>))"
    by (auto simp: azimuthal_sample_def Let_def split: bind_splits)
  show ?thesis
  proof (cases "tracked s c")
    case None
    then have "sample_effect locate p c (length (cells s)) s s'"
      unfolding s' using c
      by (simp add: sample_effect_def map_ring_def track_def tracked_at_def Let_def)
    then show ?thesis by blast
  next
    case (Some a)
    then have "sample_effect locate p c a s s'"
      unfolding s' using c
      by (simp add: sample_effect_def map_ring_def track_def tracked_at_def Let_def)
    then show ?thesis by blast
  qed
qed

lemma init_mappings_rule:
  assumes run: "init_mappings locate h st0 = Some st"
    and base: "J 0 (st0\<lparr>tracked := Map.empty, ring_index := 0\<rparr>)"
    and sample: "\<And>ravg zavg m s s'. m < n_azimuthal \<Longrightarrow> J m s \<Longrightarrow>
                   azimuthal_sample locate ravg zavg m s = Some s' \<Longrightarrow> J (Suc m) s'"
    and nxt: "\<And>s. J n_azimuthal s \<Longrightarrow> J 0 (s\<lparr>ring_index := Suc (ring_index s)\<rparr>)"
  shows "J 0 st"
proof -
  have ring: "J 0 s'" if "ring_samples locate h zavg k s = Some s'" "J 0 s" for zavg k s s'
  proof -
    from that(1) obtain ravg s1
      where loop: "for_loop 0 n_azimuthal (azimuthal_sample locate ravg zavg) s = Some s1"
        and s': "s' = s1\<lparr>ring_index := Suc (ring_index s1)\<rparr>"
      by (auto simp: ring_samples_def split: bind_splits)
    have "J n_azimuthal s1"
      by (rule for_loop_invariant [OF loop, where P = J]) (use that(2) sample in auto)
    then show ?thesis unfolding s' by (rule nxt)
  qed
  have axial: "J 0 s'" if "axial_layer locate h j s = Some s'" "J 0 s" for j s s'
  proof -
    from that(1) obtain zavg
      where loop: "for_loop 0 (n_rings h) (ring_samples locate h zavg) s = Some s'"
      by (auto simp: axial_layer_def Let_def split: bind_splits)
    show ?thesis
      using loop [unfolded for_loop_upt] that(2) by (rule for_each_invariant) (rule ring)
  qed
  have pin: "J 0 s'" if "for_loop 0 (n_axial h) (axial_layer locate h) s = Some s'" "J 0 s"
    for s s'
    using that(1) [unfolded for_loop_upt] that(2) by (rule for_each_invariant) (rule axial)
  show ?thesis
    using run [unfolded init_mappings_def Let_def for_loop_upt] base
    by (rule for_each_invariant) (rule pin [unfolded for_loop_upt])
qed

lemma rings_inv_sample:
  assumes "sample_effect locate p c a s s'" and "rings_inv m s"
  shows "rings_inv (Suc m) s'"
  using assms by (auto simp: sample_effect_def rings_inv_def)

lemma rings_inv_next:
  assumes "rings_inv n_azimuthal s"
  shows "rings_inv 0 (s\<lparr>ring_index := Suc (ring_index s)\<rparr>)"
  using assms by (auto simp: rings_inv_def less_Suc_eq)

lemma consistent_sample:
  assumes "sample_effect locate p c a s s'" and "consistent s"
  shows "consistent s'"
  using assms by (auto simp: sample_effect_def consistent_def)

lemma registry_inv_member:
  assumes "registry_inv n0 s" and "a \<in> set (ring_to_cell_inst s r)"
  shows "n0 \<le> a \<and> a < length (cells s)"
  using assms unfolding registry_inv_def by blast

lemma registry_inv_sample:
  assumes eff: "sample_effect locate p c a s s'" and inv: "registry_inv n0 s"
  shows "registry_inv n0 s'"
proof -
  have ri: "ring_index s' = ring_index s" using eff by (simp add: sample_effect_def)
  have r2c: "ring_to_cell_inst s' =
       (ring_to_cell_inst s)(ring_index s := ring_to_cell_inst s (ring_index s) @ [a])"
    using eff by (simp add: sample_effect_def)
  from eff consider
      (new) "tracked s c = None" "a = length (cells s)" "cells s' = cells s @ [c]"
            "tracked s' = (tracked s)(c \<mapsto> a)"
    | (old) "tracked s c = Some a" "cells s' = cells s" "tracked s' = tracked s"
    by (auto simp: sample_effect_def)
  then show ?thesis
  proof cases
    case new
    have 1: "n0 \<le> length (cells s')" using inv new by (simp add: registry_inv_def)
    have 2: "\<forall>c' a'. tracked s' c' = Some a' \<longrightarrow>
               n0 \<le> a' \<and> a' < length (cells s') \<and> cells s' ! a' = c'"
    proof (intro allI impI)
      fix c' a' assume t: "tracked s' c' = Some a'"
      show "n0 \<le> a' \<and> a' < length (cells s') \<and> cells s' ! a' = c'"
      proof (cases "c' = c")
        case True
        then have "a' = length (cells s)" using t new by simp
        then show ?thesis using True new inv by (simp add: registry_inv_def nth_append)
      next
        case False
        then have "tracked s c' = Some a'" using t new by simp
        then have "n0 \<le> a' \<and> a' < length (cells s) \<and> cells s ! a' = c'"
          using inv by (simp add: registry_inv_def)
        then show ?thesis using new by (simp add: nth_append)
      qed
    qed
    have 3: "\<forall>r. \<forall>a'\<in>set (ring_to_cell_inst s' r). n0 \<le> a' \<and> a' < length (cells s')"
    proof (intro allI ballI)
      fix r a' assume a': "a' \<in> set (ring_to_cell_inst s' r)"
      then have "a' = a \<or> a' \<in> set (ring_to_cell_inst s r)"
        using r2c by (auto split: if_splits)
      moreover have "n0 \<le> a \<and> a < length (cells s')" and "length (cells s) \<le> length (cells s')"
        using inv new by (simp_all add: registry_inv_def)
      ultimately show "n0 \<le> a' \<and> a' < length (cells s')"
        using registry_inv_member [OF inv, of a' r] by auto
    qed
    have 4: "\<forall>a'. n0 \<le> a' \<and> a' < length (cells s') \<longrightarrow>
               (\<exists>r\<le>ring_index s'. a' \<in> set (ring_to_cell_inst s' r))"
    proof (intro allI impI)
      fix a' assume a': "n0 \<le> a' \<and> a' < length (cells s')"
      show "\<exists>r\<le>ring_index s'. a' \<in> set (ring_to_cell_inst s' r)"
      proof (cases "a' = a")
        case True
        then show ?thesis using r2c ri by auto
      next
        case False
        then have "a' < length (cells s)" using a' new by simp
        then obtain r where "r \<le> ring_index s" "a' \<in> set (ring_to_cell_inst s r)"
          using inv a' by (auto simp: registry_inv_def)
        then show ?thesis using r2c ri by (intro exI [of _ r]) auto
      qed
    qed
    show ?thesis using 1 2 3 4 by (simp add: registry_inv_def)
  next
    case old
    have a: "n0 \<le> a \<and> a < length (cells s)" using inv old by (simp add: registry_inv_def)
    have 3: "\<forall>r. \<forall>a'\<in>set (ring_to_cell_inst s' r). n0 \<le> a' \<and> a' < length (cells s')"
    proof (intro allI ballI)
      fix r a' assume a': "a' \<in> set (ring_to_cell_inst s' r)"
      then have "a' = a \<or> a' \<in> set (ring_to_cell_inst s r)"
        using r2c by (auto split: if_splits)
      moreover have "n0 \<le> a \<and> a < length (cells s')" and "length (cells s) \<le> length (cells s')"
        using a old by simp_all
      ultimately show "n0 \<le> a' \<and> a' < length (cells s')"
        using registry_inv_member [OF inv, of a' r] by auto
    qed
    have 4: "\<forall>a'. n0 \<le> a' \<and> a' < length (cells s') \<longrightarrow>
               (\<exists>r\<le>ring_index s'. a' \<in> set (ring_to_cell_inst s' r))"
    proof (intro allI impI)
      fix a' assume a': "n0 \<le> a' \<and> a' < length (cells s')"
      then obtain r where "r \<le> ring_index s" "a' \<in> set (ring_to_cell_inst s r)"
        using inv old by (auto simp: registry_inv_def)
      then show "\<exists>r\<le>ring_index s'. a' \<in> set (ring_to_cell_inst s' r)"
        using r2c ri by (intro exI [of _ r]) auto
    qed
    show ?thesis using inv old 3 4 by (simp add: registry_inv_def)
  qed
qed

lemma registry_inv_next:
  assumes "registry_inv n0 s"
  shows "registry_inv n0 (s\<lparr>ring_index := Suc (ring_index s)\<rparr>)"
  using assms by (simp add: registry_inv_def) (meson le_SucI)

lemma located_inv_sample:
  assumes eff: "sample_effect locate p c a s s'"
    and inv: "located_inv locate s" and rings: "rings_inv m s" and reg: "registry_inv n0 s"
  shows "located_inv locate s'"
proof -
  let ?ri = "ring_index s"
  have ri: "ring_index s' = ?ri" and loc: "located s' = located s @ [p]"
    and r2c: "ring_to_cell_inst s' =
       (ring_to_cell_inst s)(?ri := ring_to_cell_inst s ?ri @ [a])"
    and p: "locate p = Some c"
    using eff by (simp_all add: sample_effect_def)
  have len: "length (located s) = n_azimuthal * ?ri + length (ring_to_cell_inst s ?ri)"
    using inv by (simp add: located_inv_def)
  have cells_a: "cells s' ! a = c"
    using eff reg by (auto simp: sample_effect_def registry_inv_def nth_append)
  have cells_old: "cells s' ! b = cells s ! b" if "b < length (cells s)" for b
    using eff that by (auto simp: sample_effect_def nth_append)
  have 1: "length (located s') =
      n_azimuthal * ring_index s' + length (ring_to_cell_inst s' (ring_index s'))"
    using len by (simp add: ri loc r2c)
  have 2: "locate (located s' ! (n_azimuthal * r + q)) = Some (cells s' ! (ring_to_cell_inst s' r ! q))"
    if r: "r \<le> ring_index s'" and q: "q < length (ring_to_cell_inst s' r)" for r q
  proof (cases "r = ?ri \<and> q = length (ring_to_cell_inst s ?ri)")
    case True
    then have "n_azimuthal * r + q = length (located s)" using len by simp
    then have "located s' ! (n_azimuthal * r + q) = p" using loc by (simp add: nth_append)
    moreover have "ring_to_cell_inst s' r ! q = a" using True r2c by simp
    ultimately show ?thesis using p cells_a by simp
  next
    case False
    then have q': "q < length (ring_to_cell_inst s r)" using q r2c by (auto split: if_splits)
    have "n_azimuthal * r + q < length (located s)"
    proof (cases "r = ?ri")
      case True
      then show ?thesis using q' len by simp
    next
      case False
      then have lt: "r < ?ri" using r ri by simp
      then have "q < n_azimuthal" using rings q' by (simp add: rings_inv_def)
      then have "n_azimuthal * r + q < n_azimuthal * Suc r" by simp
      also have "\<dots> \<le> n_azimuthal * ?ri" using lt by (intro mult_le_mono2) simp
      finally show ?thesis using len by simp
    qed
    then have a1: "located s' ! (n_azimuthal * r + q) = located s ! (n_azimuthal * r + q)"
      using loc by (simp add: nth_append)
    have a2: "ring_to_cell_inst s' r ! q = ring_to_cell_inst s r ! q"
      using q' r2c by (cases "r = ?ri") (simp_all add: nth_append)
    have "ring_to_cell_inst s r ! q \<in> set (ring_to_cell_inst s r)" using q' by simp
    then have "ring_to_cell_inst s r ! q < length (cells s)"
      using registry_inv_member [OF reg] by blast
    then have a3: "cells s' ! (ring_to_cell_inst s r ! q) = cells s ! (ring_to_cell_inst s r ! q)"
      by (rule cells_old)
    have "locate (located s ! (n_azimuthal * r + q)) = Some (cells s ! (ring_to_cell_inst s r ! q))"
      using inv r ri q' by (simp add: located_inv_def)
    then show ?thesis by (simp add: a1 a2 a3)
  qed
  show ?thesis unfolding located_inv_def using 1 2 by blast
qed

lemma located_inv_next:
  assumes "located_inv locate s" and "rings_inv n_azimuthal s"
  shows "located_inv locate (s\<lparr>ring_index := Suc (ring_index s)\<rparr>)"
  using assms by (auto simp: located_inv_def rings_inv_def le_Suc_eq)

lemma tracked_inv_sample:
  assumes eff: "sample_effect locate p c a s s'" and inv: "tracked_inv n0 s"
  shows "tracked_inv n0 s'"
proof -
  from eff consider
      (new) "tracked s c = None" "a = length (cells s)" "cells s' = cells s @ [c]"
            "tracked s' = (tracked s)(c \<mapsto> a)"
    | (old) "tracked s c = Some a" "cells s' = cells s" "tracked s' = tracked s"
    by (auto simp: sample_effect_def)
  then show ?thesis
  proof cases
    case new
    have "tracked s' (cells s' ! b) = Some b" if b: "n0 \<le> b" "b < length (cells s')" for b
    proof (cases "b = length (cells s)")
      case True
      then show ?thesis using new by simp
    next
      case False
      then have lt: "b < length (cells s)" using b new by simp
      then have t: "tracked s (cells s ! b) = Some b" using inv b by (simp add: tracked_inv_def)
      then have "cells s ! b \<noteq> c" using new by auto
      then show ?thesis using t lt new by (simp add: nth_append)
    qed
    then show ?thesis by (simp add: tracked_inv_def)
  next
    case old
    then show ?thesis using inv by (simp add: tracked_inv_def)
  qed
qed

lemma tracked_inv_next:
  assumes "tracked_inv n0 s"
  shows "tracked_inv n0 (s\<lparr>ring_index := Suc (ring_index s)\<rparr>)"
  using assms by (simp add: tracked_inv_def)

lemma same_cell_same_index:
  assumes reg: "registry_inv n0 s" and tr: "tracked_inv n0 s"
    and a: "a \<in> set (ring_to_cell_inst s r)" and b: "b \<in> set (ring_to_cell_inst s r')"
    and eq: "cells s ! a = cells s ! b"
  shows "a = b"
proof -
  have "tracked s (cells s ! a) = Some a"
    using registry_inv_member [OF reg a] tr by (simp add: tracked_inv_def)
  moreover have "tracked s (cells s ! b) = Some b"
    using registry_inv_member [OF reg b] tr by (simp add: tracked_inv_def)
  ultimately have "Some a = Some b" unfolding eq by (rule trans [OF sym])
  then show ?thesis by (rule option.inject [THEN iffD1])
qed

lemma mapping_inv_constructed:
  "mapping_inv locate (length cs) 0 ((constructed cs)\<lparr>tracked := Map.empty, ring_index := 0\<rparr>)"
  by (simp add: mapping_inv_def rings_inv_def consistent_def registry_inv_def tracked_inv_def
      located_inv_def constructed_def)

lemma init_mappings_inv:
  assumes "init_mappings locate h (constructed cs) = Some st"
  shows "mapping_inv locate (length cs) 0 st"
proof (rule init_mappings_rule [OF assms, where J = "mapping_inv locate (length cs)"])
  show "mapping_inv locate (length cs) 0 ((constructed cs)\<lparr>tracked := Map.empty, ring_index := 0\<rparr>)"
    by (rule mapping_inv_constructed)
next
  fix ravg zavg m s s'
  assume inv: "mapping_inv locate (length cs) m s"
    and step: "azimuthal_sample locate ravg zavg m s = Some s'"
  from azimuthal_sample_effect [OF step] obtain p c a where eff: "sample_effect locate p c a s s'"
    by blast
  show "mapping_inv locate (length cs) (Suc m) s'"
    using inv rings_inv_sample [OF eff] consistent_sample [OF eff] registry_inv_sample [OF eff]
      tracked_inv_sample [OF eff] located_inv_sample [OF eff]
    by (auto simp: mapping_inv_def)
next
  fix s :: "'a mappings"
  assume inv: "mapping_inv locate (length cs) n_azimuthal s"
  then show "mapping_inv locate (length cs) 0 (s\<lparr>ring_index := Suc (ring_index s)\<rparr>)"
    using rings_inv_next registry_inv_next tracked_inv_next located_inv_next
    by (auto simp: mapping_inv_def consistent_def)
qed

lemma azimuthal_sample_ring_index:
  "azimuthal_sample locate ravg zavg m s = Some s' \<Longrightarrow> ring_index s' = ring_index s"
  using azimuthal_sample_effect [of locate ravg zavg m s s'] by (auto simp: sample_effect_def)

lemma ring_samples_ring_index:
  assumes "ring_samples locate h zavg k s = Some s'"
  shows "ring_index s' = Suc (ring_index s)"
proof -
  from assms obtain ravg s1
    where loop: "for_loop 0 n_azimuthal (azimuthal_sample locate ravg zavg) s = Some s1"
      and s': "s' = s1\<lparr>ring_index := Suc (ring_index s1)\<rparr>"
    by (auto simp: ring_samples_def split: bind_splits)
  have "ring_index s1 = ring_index s"
    using loop [unfolded for_loop_upt]
    by (rule for_each_invariant) (simp_all add: azimuthal_sample_ring_index)
  then show ?thesis by (simp add: s')
qed

lemma for_loop_count:
  assumes run: "for_loop 0 n body s = Some s'"
    and step: "\<And>k t t'. k < n \<Longrightarrow> body k t = Some t' \<Longrightarrow> cnt t' = cnt t + d"
  shows "cnt s' = cnt s + n * (d::nat)"
  by (rule for_loop_invariant [OF run, where P = "\<lambda>k t. cnt t = cnt s + k * d"])
     (auto simp: step)

lemma axial_layer_ring_index:
  assumes "axial_layer locate h j s = Some s'"
  shows "ring_index s' = ring_index s + n_rings h"
proof -
  from assms obtain zavg
    where loop: "for_loop 0 (n_rings h) (ring_samples locate h zavg) s = Some s'"
    by (auto simp: axial_layer_def Let_def split: bind_splits)
  show ?thesis
    using for_loop_count [OF loop, where cnt = ring_index and d = 1]
    by (simp add: ring_samples_ring_index)
qed

lemma init_mappings_ring_index:
  assumes "init_mappings locate h st0 = Some st"
  shows "ring_index st = length (pin_centers h) * n_axial h * n_rings h"
proof -
  have pin: "ring_index s' = ring_index s + n_axial h * n_rings h"
    if "for_loop 0 (n_axial h) (axial_layer locate h) s = Some s'" for s s'
    using for_loop_count [OF that, where cnt = ring_index and d = "n_rings h"]
    by (simp add: axial_layer_ring_index)
  show ?thesis
    using for_loop_count [OF assms [unfolded init_mappings_def Let_def],
        where cnt = ring_index and d = "n_axial h * n_rings h"]
    by (simp add: pin)
qed

text \<open>
  C5. After \<open>init_mappings\<close>, for every ring index \<open>r\<close> and cell-instance index \<open>c\<close>: \<open>r\<close> is
  in the reverse mapping \<open>cell_inst_to_ring_[c]\<close> if and only if \<open>c\<close> is in the forward
  mapping \<open>ring_to_cell_inst_[r]\<close>.
\<close>

theorem init_mappings_consistent:
  assumes "init_mappings locate h (constructed cs) = Some st"
  shows "r \<in> set (cell_inst_to_ring st c) \<longleftrightarrow> c \<in> set (ring_to_cell_inst st r)"
  using init_mappings_inv [OF assms] by (simp add: mapping_inv_def consistent_def)

text \<open>
  C6. After \<open>init_mappings\<close>, every ring index below \<open>n_pins * n_axial * n_rings\<close> has a
  non-empty forward mapping, and the forward mappings of these rings together hold exactly
  the indices of the cell instances registered during the build. The number of pins is the
  number of pin centres, which is what the build loops over.
\<close>

theorem init_mappings_coverage:
  assumes run: "init_mappings locate h (constructed cs) = Some st"
  shows "(\<forall>r < length (pin_centers h) * n_axial h * n_rings h. ring_to_cell_inst st r \<noteq> [])
       \<and> (\<Union>r < length (pin_centers h) * n_axial h * n_rings h. set (ring_to_cell_inst st r))
           = {length cs ..< length (cells st)}"
proof -
  let ?N = "length (pin_centers h) * n_axial h * n_rings h"
  have N: "ring_index st = ?N" by (rule init_mappings_ring_index [OF run])
  have rings: "rings_inv 0 st" and reg: "registry_inv (length cs) st"
    using init_mappings_inv [OF run] by (simp_all add: mapping_inv_def)
  have len: "length (ring_to_cell_inst st r) = n_azimuthal" if "r < ?N" for r
    using rings that N by (simp add: rings_inv_def)
  have 1: "\<forall>r < ?N. ring_to_cell_inst st r \<noteq> []"
    using len by (fastforce simp: n_azimuthal_def)
  have 2: "(\<Union>r < ?N. set (ring_to_cell_inst st r)) = {length cs ..< length (cells st)}"
  proof (intro equalityI subsetI)
    fix a assume "a \<in> (\<Union>r < ?N. set (ring_to_cell_inst st r))"
    then obtain r where "a \<in> set (ring_to_cell_inst st r)" by blast
    then show "a \<in> {length cs ..< length (cells st)}"
      using registry_inv_member [OF reg] by simp
  next
    fix a assume "a \<in> {length cs ..< length (cells st)}"
    then obtain r where r: "r \<le> ring_index st" and a: "a \<in> set (ring_to_cell_inst st r)"
      using reg unfolding registry_inv_def by (metis atLeastLessThan_iff)
    have "r \<noteq> ring_index st" using a rings by (auto simp: rings_inv_def)
    then have "r < ?N" using r N by simp
    then show "a \<in> (\<Union>r < ?N. set (ring_to_cell_inst st r))" using a by blast
  qed
  show ?thesis using 1 2 by blast
qed

text \<open>
  C4, as amended. After \<open>init_mappings\<close>, the forward mapping of every ring index in range
  has exactly one entry for each of the 4 azimuthal samples, in the order of the samples:
  entry \<open>m\<close> is the registry index of the cell instance that sample \<open>m\<close> of the ring resolved
  to. Two entries are the same index exactly when their samples resolved to the same cell
  instance, so a cell instance hit by several samples is entered once for each.
\<close>

theorem init_mappings_forward_entries:
  assumes run: "init_mappings locate h (constructed cs) = Some st"
    and r: "r < length (pin_centers h) * n_axial h * n_rings h"
  shows "length (ring_to_cell_inst st r) = n_azimuthal
       \<and> (\<forall>m<n_azimuthal. locate (located st ! (n_azimuthal * r + m))
                              = Some (cells st ! (ring_to_cell_inst st r ! m)))
       \<and> (\<forall>m<n_azimuthal. \<forall>m'<n_azimuthal.
             ring_to_cell_inst st r ! m = ring_to_cell_inst st r ! m' \<longleftrightarrow>
             locate (located st ! (n_azimuthal * r + m))
               = locate (located st ! (n_azimuthal * r + m')))"
proof -
  have N: "ring_index st = length (pin_centers h) * n_axial h * n_rings h"
    by (rule init_mappings_ring_index [OF run])
  have rings: "rings_inv 0 st" and loc: "located_inv locate st"
    and reg: "registry_inv (length cs) st" and tr: "tracked_inv (length cs) st"
    using init_mappings_inv [OF run] by (simp_all add: mapping_inv_def)
  have len: "length (ring_to_cell_inst st r) = n_azimuthal"
    using rings r N by (simp add: rings_inv_def)
  have found: "locate (located st ! (n_azimuthal * r + m))
                 = Some (cells st ! (ring_to_cell_inst st r ! m))" if "m < n_azimuthal" for m
    using loc r N len that by (simp add: located_inv_def)
  have same: "ring_to_cell_inst st r ! m = ring_to_cell_inst st r ! m' \<longleftrightarrow>
      locate (located st ! (n_azimuthal * r + m)) = locate (located st ! (n_azimuthal * r + m'))"
    if m: "m < n_azimuthal" and m': "m' < n_azimuthal" for m m'
  proof
    assume "ring_to_cell_inst st r ! m = ring_to_cell_inst st r ! m'"
    then show "locate (located st ! (n_azimuthal * r + m))
                 = locate (located st ! (n_azimuthal * r + m'))"
      using found [OF m] found [OF m'] by simp
  next
    assume "locate (located st ! (n_azimuthal * r + m))
              = locate (located st ! (n_azimuthal * r + m'))"
    then have eq: "cells st ! (ring_to_cell_inst st r ! m) = cells st ! (ring_to_cell_inst st r ! m')"
      using found [OF m] found [OF m'] by simp
    have "ring_to_cell_inst st r ! m \<in> set (ring_to_cell_inst st r)"
      and "ring_to_cell_inst st r ! m' \<in> set (ring_to_cell_inst st r)"
      using m m' len by simp_all
    then show "ring_to_cell_inst st r ! m = ring_to_cell_inst st r ! m'"
      using same_cell_same_index [OF reg tr _ _ eq] by blast
  qed
  show ?thesis using len found same by blast
qed

lemma for_loop_log:
  assumes run: "for_loop 0 n body s = Some s'"
    and step: "\<And>k t t'. k < n \<Longrightarrow> body k t = Some t' \<Longrightarrow> lg t' = lg t @ f k"
  shows "lg s' = lg s @ concat (map f [0..<n])"
  by (rule for_loop_invariant [OF run, where P = "\<lambda>k t. lg t = lg s @ concat (map f [0..<k])"])
     (auto simp: step)

lemma azimuthal_sample_located:
  assumes "azimuthal_sample locate (Finite ra) (Finite za) m s = Some s'"
  shows "located s' = located s @
           [(Finite (ra * cos (sample_angle m)), Finite (ra * sin (sample_angle m)), Finite za)]"
proof -
  have theta: "dadd (ddiv (dmul (dmul (Finite 2) (of_count m)) PI) (of_count n_azimuthal))
                 (Finite 0.01) = Finite (sample_angle m)"
    by (simp add: of_count_def PI_def n_azimuthal_def sample_angle_def)
  from assms show ?thesis
    unfolding azimuthal_sample_def theta
    by (auto simp: Let_def map_ring_def track_def split: bind_splits)
qed

lemma ring_samples_located:
  assumes run: "ring_samples locate h (Finite za) k s = Some s'"
    and fin: "NonFinite \<notin> set (r_grid_fuel h)" "NonFinite \<notin> set (r_grid_clad h)"
  shows "located s' = located s @
           map (\<lambda>m. (Finite (ring_midradius h k * cos (sample_angle m)),
                      Finite (ring_midradius h k * sin (sample_angle m)), Finite za))
               [0..<n_azimuthal]"
proof -
  from run obtain ravg s1
    where ravg: "(if k < n_fuel_rings h then do {
          r_inner \<leftarrow> xt_get (r_grid_fuel h) k;
          r_outer \<leftarrow> xt_get (r_grid_fuel h) (k + 1);
          Some (dmul (Finite 0.5) (dadd r_inner r_outer))
        } else do {
          let m = k - n_fuel_rings h;
          r_inner \<leftarrow> xt_get (r_grid_clad h) m;
          r_outer \<leftarrow> xt_get (r_grid_clad h) (m + 1);
          Some (dmul (Finite 0.5) (dadd r_inner r_outer))
        }) = Some ravg"
      and loop: "for_loop 0 n_azimuthal (azimuthal_sample locate ravg (Finite za)) s = Some s1"
      and s': "s' = s1\<lparr>ring_index := Suc (ring_index s1)\<rparr>"
    by (auto simp: ring_samples_def split: bind_splits)
  have "ravg = Finite (ring_midradius h k)"
  proof (cases "k < n_fuel_rings h")
    case True
    with ravg obtain a b where a: "xt_get (r_grid_fuel h) k = Some a"
      and b: "xt_get (r_grid_fuel h) (k + 1) = Some b"
      and r: "ravg = dmul (Finite 0.5) (dadd a b)"
      by (auto split: bind_splits)
    show ?thesis
      using True r xt_get_finite [OF a fin(1)] xt_get_finite [OF b fin(1)]
      by (simp add: ring_midradius_def)
  next
    case False
    with ravg obtain a b where a: "xt_get (r_grid_clad h) (k - n_fuel_rings h) = Some a"
      and b: "xt_get (r_grid_clad h) (k - n_fuel_rings h + 1) = Some b"
      and r: "ravg = dmul (Finite 0.5) (dadd a b)"
      by (auto simp: Let_def split: bind_splits)
    show ?thesis
      using False r xt_get_finite [OF a fin(2)] xt_get_finite [OF b fin(2)]
      by (simp add: ring_midradius_def)
  qed
  then have loop': "for_loop 0 n_azimuthal
      (azimuthal_sample locate (Finite (ring_midradius h k)) (Finite za)) s = Some s1"
    using loop by simp
  have "located s1 = located s @ concat (map (\<lambda>m.
          [(Finite (ring_midradius h k * cos (sample_angle m)),
            Finite (ring_midradius h k * sin (sample_angle m)), Finite za)]) [0..<n_azimuthal])"
    by (rule for_loop_log [OF loop']) (rule azimuthal_sample_located)
  then show ?thesis by (simp add: s' concat_map_singleton)
qed

lemma axial_layer_located:
  assumes run: "axial_layer locate h j s = Some s'"
    and fin: "NonFinite \<notin> set (r_grid_fuel h)" "NonFinite \<notin> set (r_grid_clad h)"
      "NonFinite \<notin> set (z h)"
  shows "located s' = located s @
           concat (map (\<lambda>k. map (sample_point h j k) [0..<n_azimuthal]) [0..<n_rings h])"
proof -
  from run obtain a b where a: "xt_get (z h) j = Some a" and b: "xt_get (z h) (j + 1) = Some b"
    and loop: "for_loop 0 (n_rings h)
                 (ring_samples locate h (dmul (Finite 0.5) (dadd a b))) s = Some s'"
    by (auto simp: axial_layer_def Let_def split: bind_splits)
  have "dmul (Finite 0.5) (dadd a b) = Finite (layer_midheight h j)"
    using xt_get_finite [OF a fin(3)] xt_get_finite [OF b fin(3)]
    by (simp add: layer_midheight_def)
  then have loop': "for_loop 0 (n_rings h)
      (ring_samples locate h (Finite (layer_midheight h j))) s = Some s'"
    using loop by simp
  show ?thesis
    unfolding sample_point_def
    by (rule for_loop_log [OF loop']) (rule ring_samples_located [OF _ fin(1,2)])
qed

lemma init_mappings_pin_centers:
  "length cs' = length (pin_centers h) \<Longrightarrow>
   init_mappings locate (h\<lparr>pin_centers := cs'\<rparr>) st0 = init_mappings locate h st0"
proof -
  have "ring_samples locate (h\<lparr>pin_centers := cs'\<rparr>) = ring_samples locate h"
    by (intro ext) (simp add: ring_samples_def)
  then have "axial_layer locate (h\<lparr>pin_centers := cs'\<rparr>) = axial_layer locate h"
    by (intro ext) (simp add: axial_layer_def n_rings_def)
  then show "length cs' = length (pin_centers h) \<Longrightarrow> ?thesis"
    by (simp add: init_mappings_def)
qed

text \<open>
  C3. The points \<open>init_mappings\<close> queries are, in order over pins, axial layers, rings and
  samples, the points \<open>(ravg cos \<theta>, ravg sin \<theta>, zavg)\<close> with \<open>\<theta> = 2\<pi>m/4 + 0.01\<close>: they do
  not depend on the pin, so every pin queries the same points, and a run with other
  pin-centre coordinates (as many) gives the same result.
\<close>

theorem init_mappings_sample_points:
  assumes run: "init_mappings locate h st0 = Some st"
    and fin: "NonFinite \<notin> set (r_grid_fuel h)" "NonFinite \<notin> set (r_grid_clad h)"
      "NonFinite \<notin> set (z h)"
  shows "located st = located st0 @
           [sample_point h j k m. i \<leftarrow> [0..<length (pin_centers h)], j \<leftarrow> [0..<n_axial h],
              k \<leftarrow> [0..<n_rings h], m \<leftarrow> [0..<n_azimuthal]]
       \<and> (\<forall>cs'. length cs' = length (pin_centers h) \<longrightarrow>
             init_mappings locate (h\<lparr>pin_centers := cs'\<rparr>) st0 = Some st)"
proof -
  have pin: "located s' = located s @ concat (map (\<lambda>j.
         concat (map (\<lambda>k. map (sample_point h j k) [0..<n_azimuthal]) [0..<n_rings h]))
         [0..<n_axial h])"
    if "for_loop 0 (n_axial h) (axial_layer locate h) s = Some s'" for s s'
    by (rule for_loop_log [OF that]) (rule axial_layer_located [OF _ fin])
  have "located st = located (st0\<lparr>tracked := Map.empty, ring_index := 0\<rparr>) @
      concat (map (\<lambda>i. concat (map (\<lambda>j.
         concat (map (\<lambda>k. map (sample_point h j k) [0..<n_azimuthal]) [0..<n_rings h]))
         [0..<n_axial h])) [0..<length (pin_centers h)])"
    by (rule for_loop_log [OF run [unfolded init_mappings_def Let_def]]) (rule pin)
  then show ?thesis using run by (simp add: init_mappings_pin_centers)
qed

text \<open>With a transport geometry that resolves every point and grids of one more entry than
  they have layers or rings, the build returns.\<close>

lemma init_mappings_returns:
  assumes loc: "\<And>p. locate p \<noteq> None"
    and zs: "n_axial h < length (z h)"
    and rf: "n_fuel_rings h < length (r_grid_fuel h)"
    and rc: "n_clad_rings h < length (r_grid_clad h)"
  shows "\<exists>st'. init_mappings locate h st = Some st'"
proof -
  have sample: "\<exists>t'. azimuthal_sample locate ravg zavg m t = Some t' \<and> True" for ravg zavg m t
  proof -
    have "azimuthal_sample locate ravg zavg m t \<noteq> None"
      using loc by (simp add: azimuthal_sample_def Let_def bind_eq_None_conv)
    then show ?thesis by auto
  qed
  have ring: "\<exists>t'. ring_samples locate h zavg k t = Some t' \<and> True" if k: "k < n_rings h"
    for zavg k t
  proof -
    have "\<exists>ravg. (if k < n_fuel_rings h then do {
          r_inner \<leftarrow> xt_get (r_grid_fuel h) k;
          r_outer \<leftarrow> xt_get (r_grid_fuel h) (k + 1);
          Some (dmul (Finite 0.5) (dadd r_inner r_outer))
        } else do {
          let m = k - n_fuel_rings h;
          r_inner \<leftarrow> xt_get (r_grid_clad h) m;
          r_outer \<leftarrow> xt_get (r_grid_clad h) (m + 1);
          Some (dmul (Finite 0.5) (dadd r_inner r_outer))
        }) = Some ravg"
      using k rf rc by (auto simp: xt_get_def n_rings_def Let_def)
    then obtain ravg where ravg: "(if k < n_fuel_rings h then do {
          r_inner \<leftarrow> xt_get (r_grid_fuel h) k;
          r_outer \<leftarrow> xt_get (r_grid_fuel h) (k + 1);
          Some (dmul (Finite 0.5) (dadd r_inner r_outer))
        } else do {
          let m = k - n_fuel_rings h;
          r_inner \<leftarrow> xt_get (r_grid_clad h) m;
          r_outer \<leftarrow> xt_get (r_grid_clad h) (m + 1);
          Some (dmul (Finite 0.5) (dadd r_inner r_outer))
        }) = Some ravg" ..
    have "\<exists>t'. for_loop 0 n_azimuthal (azimuthal_sample locate ravg zavg) t = Some t' \<and> True"
      by (rule for_loop_returns [where P = "\<lambda>k t. True"]) (use sample in auto)
    then show ?thesis unfolding ring_samples_def ravg by auto
  qed
  have axial: "\<exists>t'. axial_layer locate h j t = Some t' \<and> True" if j: "j < n_axial h" for j t
  proof -
    have "\<exists>t'. for_loop 0 (n_rings h) (ring_samples locate h zavg) t = Some t' \<and> True" for zavg
      by (rule for_loop_returns [where P = "\<lambda>k t. True"]) (use ring in auto)
    then show ?thesis using j zs by (auto simp: axial_layer_def xt_get_def Let_def)
  qed
  have pin: "\<exists>t'. for_loop 0 (n_axial h) (axial_layer locate h) t = Some t' \<and> True" for t
    by (rule for_loop_returns [where P = "\<lambda>k t. True"]) (use axial in auto)
  have "\<exists>t'. for_loop 0 (length (pin_centers h)) (\<lambda>i. for_loop 0 (n_axial h) (axial_layer locate h))
                (st\<lparr>tracked := Map.empty, ring_index := 0\<rparr>) = Some t' \<and> True"
    by (rule for_loop_returns [where P = "\<lambda>k t. True"]) (use pin in auto)
  then show ?thesis by (simp add: init_mappings_def)
qed

section \<open>Properties of the coupling loop\<close>

lemma for_int_upto: "for_int i n body s = for_each [i..n - 1] body s"
proof (induction i n body s rule: for_int.induct)
  case (1 i n body s)
  show ?case
  proof (cases "i < n")
    case True
    then have "[i..n - 1] = i # [i + 1..n - 1]" by (simp add: upto_rec1)
    then show ?thesis
      using 1 True by (subst for_int.simps) (simp split: option.splits)
  next
    case False
    then show ?thesis by (subst for_int.simps) simp
  qed
qed

lemma for_each_log:
  assumes "for_each xs body s = Some s'" and "I s"
    and "\<And>x t t'. x \<in> set xs \<Longrightarrow> I t \<Longrightarrow> body x t = Some t' \<Longrightarrow> lg t' = lg t @ f x \<and> I t'"
  shows "lg s' = lg s @ concat (map f xs) \<and> I s'"
  using assms
proof (induction xs arbitrary: s)
  case Nil
  then show ?case by simp
next
  case (Cons x xs)
  from Cons.prems(1) obtain t where t: "body x s = Some t" and rest: "for_each xs body t = Some s'"
    by (auto split: option.splits)
  have st: "lg t = lg s @ f x \<and> I t" using Cons.prems(3) [OF _ Cons.prems(2) t] by simp
  have "lg s' = lg t @ concat (map f xs) \<and> I s'"
  proof (rule Cons.IH [OF rest])
    show "I t" using st by simp
  next
    fix y u u' assume "y \<in> set xs" "I u" "body y u = Some u'"
    then show "lg u' = lg u @ f y \<and> I u'" using Cons.prems(3) [of y u u'] by simp
  qed
  then show ?case using st by simp
qed

lemma transport_solve_trace:
  assumes "transport_solve T i_timestep i_picard st = Some st'"
  shows "trace st' = trace st @ [TransportInit,
            TransportSolve (i_timestep * max_timesteps st + i_picard), TransportFinalize]
       \<and> max_timesteps st' = max_timesteps st \<and> max_picard_iter st' = max_picard_iter st
       \<and> int_range (i_timestep * max_timesteps st + i_picard)"
  using assms
  by (auto simp: transport_solve_def record_call_def checked_int_def Let_def
      split: bind_splits if_splits)

lemma picard_iteration_trace:
  assumes "picard_iteration T H i_timestep i_picard st = Some st'"
  shows "trace st' = trace st @ picard_events (openmc_active T) (heat_active H)
                                (i_timestep * max_timesteps st + i_picard)
       \<and> max_timesteps st' = max_timesteps st \<and> max_picard_iter st' = max_picard_iter st"
proof -
  from assms obtain st1 where
    st1: "(if openmc_active T then transport_solve T i_timestep i_picard st else Some st) = Some st1"
    by (auto simp: picard_iteration_def split: bind_splits)
  have 1: "trace st1 = trace st @ (if openmc_active T then [TransportInit,
            TransportSolve (i_timestep * max_timesteps st + i_picard), TransportFinalize] else [])
       \<and> max_timesteps st1 = max_timesteps st \<and> max_picard_iter st1 = max_picard_iter st"
    using st1 transport_solve_trace [of T i_timestep i_picard st st1]
    by (auto split: if_splits)
  from assms st1 have "trace st' = trace st1 @ [Barrier, UpdateHeatSource]
          @ (if heat_active H then [HeatSolve] else []) @ [Barrier, UpdateTemperature]
       \<and> max_timesteps st' = max_timesteps st1 \<and> max_picard_iter st' = max_picard_iter st1"
    by (auto simp: picard_iteration_def record_call_def Let_def split: bind_splits if_splits)
  then show ?thesis using 1 by (simp add: picard_events_def)
qed

lemma solve_step_trace:
  assumes "solve_step T H st = Some st'"
  shows "trace st' = trace st @
     concat (map (\<lambda>i_timestep. concat (map (\<lambda>i_picard.
        picard_events (openmc_active T) (heat_active H) (i_timestep * max_timesteps st + i_picard))
        [0..max_picard_iter st - 1])) [0..max_timesteps st - 1])"
proof -
  let ?I = "\<lambda>s. max_timesteps s = max_timesteps st \<and> max_picard_iter s = max_picard_iter st"
  let ?ev = "\<lambda>i_timestep i_picard. picard_events (openmc_active T) (heat_active H)
               (i_timestep * max_timesteps st + i_picard)"
  have inner: "trace s' = trace s @ concat (map (?ev i_timestep) [0..max_picard_iter st - 1]) \<and> ?I s'"
    if run: "for_int 0 (max_picard_iter s) (picard_iteration T H i_timestep) s = Some s'"
      and I: "?I s" for i_timestep s s'
  proof (rule for_each_log [where I = ?I])
    show "for_each [0..max_picard_iter st - 1] (picard_iteration T H i_timestep) s = Some s'"
      using run I by (simp add: for_int_upto)
    show "?I s" by (rule I)
  next
    fix x t t' assume "?I t" "picard_iteration T H i_timestep x t = Some t'"
    then show "trace t' = trace t @ ?ev i_timestep x \<and> ?I t'"
      using picard_iteration_trace [of T H i_timestep x t t'] by simp
  qed
  have "trace st' = trace st @ concat (map (\<lambda>i_timestep.
          concat (map (?ev i_timestep) [0..max_picard_iter st - 1])) [0..max_timesteps st - 1])
        \<and> ?I st'"
  proof (rule for_each_log [where I = ?I])
    show "for_each [0..max_timesteps st - 1]
            (\<lambda>i_timestep st'. for_int 0 (max_picard_iter st')
               (picard_iteration T H i_timestep) st') st = Some st'"
      using assms by (simp add: solve_step_def for_int_upto)
  next
    fix x t t'
    assume "?I t" "for_int 0 (max_picard_iter t) (picard_iteration T H x) t = Some t'"
    then show "trace t' = trace t @ concat (map (?ev x) [0..max_picard_iter st - 1]) \<and> ?I t'"
      using inner by blast
  qed simp
  then show ?thesis by simp
qed

lemma solve_indices_append: "solve_indices (xs @ ys) = solve_indices xs @ solve_indices ys"
  by (induction xs rule: solve_indices.induct) simp_all

lemma solve_indices_concat:
  "solve_indices (concat xss) = concat (map solve_indices xss)"
  by (induction xss) (simp_all add: solve_indices_append)

lemma solve_indices_picard_events:
  "solve_indices (picard_events True heat i) = [i]"
  by (simp add: picard_events_def)


text \<open>
  C8. With the transport solver active, the transport solves of \<open>solve_step\<close> are made with
  the indices \<open>i_timestep * max_timesteps + i_picard\<close>, one for every outer index
  \<open>i_timestep\<close> and inner index \<open>i_picard\<close>, in the order of the loops.
\<close>

theorem solve_step_iteration_index:
  assumes run: "solve_step T H st = Some st'"
    and act: "openmc_active T"
  shows "solve_indices (drop (length (trace st)) (trace st')) =
           [i_timestep * max_timesteps st + i_picard.
              i_timestep \<leftarrow> [0..max_timesteps st - 1], i_picard \<leftarrow> [0..max_picard_iter st - 1]]"
  using solve_step_trace [OF run]
  by (simp add: act solve_indices_concat solve_indices_picard_events comp_def)

section \<open>The worked configuration\<close>

lemmas eval_simps = example_heat_def by_height_def init_mappings_def axial_layer_def ring_samples_def
  azimuthal_sample_def map_ring_def track_def tracked_at_def constructed_def n_rings_def
  n_azimuthal_def xt_get_def of_count_def PI_def Let_def for_loop_upt upt_rec

lemma example_run:
  "init_mappings by_height example_heat (constructed []) = Some example_mappings"
  by (simp add: eval_simps example_mappings_def sample_point_def ring_midradius_def
      layer_midheight_def sample_angle_def numeral_2_eq_2 numeral_3_eq_3 mult.commute)

lemma example_forward:
  "ring_to_cell_inst example_mappings =
     (\<lambda>i. [])(0 := [0, 0, 0, 0], 1 := [0, 0, 0, 0], 2 := [1, 1, 1, 1], 3 := [1, 1, 1, 1])"
  by (simp add: example_mappings_def)

lemma example_reverse:
  "cell_inst_to_ring example_mappings =
     (\<lambda>i. [])(0 := [0, 0, 0, 0, 1, 1, 1, 1], 1 := [2, 2, 2, 2, 3, 3, 3, 3])"
  by (simp add: example_mappings_def)

lemma example_cells [simp]: "cells example_mappings = [10, 20]"
  by (simp add: example_mappings_def)

lemma example_heat_fields [simp]:
  "n_pins example_heat = 1" "n_axial example_heat = 2"
  "n_fuel_rings example_heat = 1" "n_clad_rings example_heat = 1"
  "r_grid_fuel example_heat = [Finite 0, Finite 1]"
  "r_grid_clad example_heat = [Finite 1, Finite 2]"
  "z example_heat = [Finite 0, Finite 4, Finite 10]"
  "pin_centers example_heat = [(Finite 3, Finite 5)]"
  "source example_heat = \<lparr>shape = (1, 2, 2), storage = [Finite 7, Finite 9, NonFinite, Finite 1]\<rparr>"
  "temperature example_heat =
     \<lparr>shape = (1, 2, 2), storage = [Finite 300, Finite 320, Finite 400, Finite 440]\<rparr>"
  by (simp_all add: example_heat_def)

lemma degenerate_heat_fields [simp]:
  "n_fuel_rings degenerate_heat = 1" "n_clad_rings degenerate_heat = 1"
  "r_grid_fuel degenerate_heat = [Finite 1, Finite 1]"
  "r_grid_clad degenerate_heat = [Finite 1, Finite 2]"
  "temperature degenerate_heat =
     \<lparr>shape = (1, 2, 2), storage = [Finite 300, Finite 320, Finite 400, Finite 440]\<rparr>"
  by (simp_all add: degenerate_heat_def)

lemma example_n_rings [simp]:
  "n_rings example_heat = 2" "n_rings example_heated = 2" "n_rings degenerate_heat = 2"
  by (simp_all add: n_rings_def example_heated_def degenerate_heat_def)

lemmas heat_source_eval = update_heat_source_def heat_source_ring_def q_accumulate_def at_put_def
  in_shape_def flat_index_def zero_fill_def xt_get_def of_count_def Let_def
  for_loop_upt upt_rec

lemma example_heat_source_run:
  "update_heat_source example_heat example_Q (ring_to_cell_inst example_mappings)
     = Some example_heated"
  by (simp add: heat_source_eval example_forward example_heated_def example_Q_def)

lemmas temperature_eval = update_temperature_def cell_average_def accumulate_ring_def ring_vol_def
  xt_get_def Let_def for_loop_upt upt_rec

lemma example_temperature_run:
  "update_temperature example_heat [10, 20] (cell_inst_to_ring example_mappings)
     = Some example_calls"
  by (simp add: temperature_eval example_reverse example_calls_def)

lemma degenerate_temperature_run:
  "update_temperature degenerate_heat [10, 20] fuel_rings_only
     = Some [(10, NonFinite), (20, NonFinite)]"
  by (simp add: temperature_eval fuel_rings_only_def)


text \<open>
  C10 on the worked configuration.
\<close>

theorem update_heat_source_idempotent_witness:
  "update_heat_source example_heat example_Q (ring_to_cell_inst example_mappings)
     = Some example_heated
   \<and> update_heat_source example_heated example_Q (ring_to_cell_inst example_mappings)
     = Some example_heated"
  using example_heat_source_run update_heat_source_idempotent [OF example_heat_source_run]
  by simp


text \<open>
  C9 on the degenerate grid.
\<close>

theorem update_temperature_zero_weight_witness:
  "update_temperature degenerate_heat [10, 20] fuel_rings_only
     = Some [(10, NonFinite), (20, NonFinite)]
   \<and> (\<Sum>r\<leftarrow>fuel_rings_only 0. ring_weight degenerate_heat r) = 0
   \<and> [(10, NonFinite), (20, NonFinite)] ! 0 = (10 :: nat, NonFinite)"
proof -
  note run = degenerate_temperature_run
  have fin: "NonFinite \<notin> set (r_grid_fuel degenerate_heat)"
    "NonFinite \<notin> set (r_grid_clad degenerate_heat)"
    "NonFinite \<notin> set (storage (temperature degenerate_heat))"
    by simp_all
  have w: "(\<Sum>r\<leftarrow>fuel_rings_only 0. ring_weight degenerate_heat r) = 0"
    by (simp add: ring_weight_def fuel_rings_only_def)
  have i: "0 < length [10, 20 :: nat]" by simp
  show ?thesis
    using run w update_temperature_zero_weight [OF run i fin w] by simp
qed

lemma example_located:
  "located example_mappings =
     [sample_point example_heat j k m. j \<leftarrow> [0, 1], k \<leftarrow> [0, 1], m \<leftarrow> [0, 1, 2, 3]]"
  by (simp add: example_mappings_def)

text \<open>
  C3 on the worked configuration.
\<close>

theorem init_mappings_sample_points_witness:
  "init_mappings by_height example_heat (constructed []) = Some example_mappings
   \<and> located example_mappings =
       [sample_point example_heat j k m. i \<leftarrow> [0], j \<leftarrow> [0, 1], k \<leftarrow> [0, 1], m \<leftarrow> [0, 1, 2, 3]]
   \<and> init_mappings by_height (example_heat\<lparr>pin_centers := [(Finite 100, Finite 200)]\<rparr>)
         (constructed []) = Some example_mappings"
proof -
  note run = example_run
  have fin: "NonFinite \<notin> set (r_grid_fuel example_heat)"
    "NonFinite \<notin> set (r_grid_clad example_heat)" "NonFinite \<notin> set (z example_heat)"
    by simp_all
  have len: "length [(Finite 100, Finite 200)] = length (pin_centers example_heat)" by simp
  show ?thesis
    using run init_mappings_sample_points [OF run fin] len
    by (simp add: example_located)
qed

text \<open>
  C4 as stated fails: in the worked configuration the four samples of ring 0 resolve to
  one cell instance, and the forward mapping of the ring holds its index four times.
\<close>

theorem init_mappings_duplicates:
  "init_mappings by_height example_heat (constructed []) = Some example_mappings
   \<and> ring_to_cell_inst example_mappings 0 = [0, 0, 0, 0]
   \<and> \<not> distinct (ring_to_cell_inst example_mappings 0)
   \<and> length (ring_to_cell_inst example_mappings 0) \<noteq> card (set (ring_to_cell_inst example_mappings 0))"
  using example_run by (simp add: example_forward)

text \<open>
  The amended C4 on the worked configuration.
\<close>

theorem init_mappings_forward_entries_witness:
  "init_mappings by_height example_heat (constructed []) = Some example_mappings
   \<and> 2 < length (pin_centers example_heat) * n_axial example_heat * n_rings example_heat
   \<and> length (ring_to_cell_inst example_mappings 2) = n_azimuthal
   \<and> by_height (located example_mappings ! (n_azimuthal * 2 + 3))
       = Some (cells example_mappings ! (ring_to_cell_inst example_mappings 2 ! 3))
   \<and> (ring_to_cell_inst example_mappings 2 ! 0 = ring_to_cell_inst example_mappings 2 ! 3) =
       (by_height (located example_mappings ! (n_azimuthal * 2 + 0))
          = by_height (located example_mappings ! (n_azimuthal * 2 + 3)))"
proof -
  note run = example_run
  have r: "2 < length (pin_centers example_heat) * n_axial example_heat * n_rings example_heat"
    by simp
  have m: "3 < n_azimuthal" "0 < n_azimuthal" by (simp_all add: n_azimuthal_def)
  show ?thesis
    using run r m init_mappings_forward_entries [OF run r] by blast
qed

text \<open>
  C5 on the worked configuration.
\<close>

theorem init_mappings_consistent_witness:
  "init_mappings by_height example_heat (constructed []) = Some example_mappings
   \<and> (3 \<in> set (cell_inst_to_ring example_mappings 1)
        \<longleftrightarrow> 1 \<in> set (ring_to_cell_inst example_mappings 3))
   \<and> (3 \<in> set (cell_inst_to_ring example_mappings 0)
        \<longleftrightarrow> 0 \<in> set (ring_to_cell_inst example_mappings 3))"
  using example_run init_mappings_consistent [OF example_run, of 3 1]
    init_mappings_consistent [OF example_run, of 3 0]
  by blast

text \<open>
  C6 on the worked configuration.
\<close>

theorem init_mappings_coverage_witness:
  "init_mappings by_height example_heat (constructed []) = Some example_mappings
   \<and> ring_to_cell_inst example_mappings 0 \<noteq> [] \<and> ring_to_cell_inst example_mappings 1 \<noteq> []
   \<and> ring_to_cell_inst example_mappings 2 \<noteq> [] \<and> ring_to_cell_inst example_mappings 3 \<noteq> []
   \<and> (\<Union>r<4. set (ring_to_cell_inst example_mappings r)) = {0..<2}"
proof -
  have N: "length (pin_centers example_heat) * n_axial example_heat * n_rings example_heat = 4"
    by simp
  have c: "{length ([] :: nat list) ..< length (cells example_mappings)} = {0..<2}"
    by (simp add: numeral_2_eq_2)
  show ?thesis
    using example_run init_mappings_coverage [OF example_run, unfolded N] unfolding c
    by (simp add: example_forward)
qed

lemma example_heated_fields [simp]:
  "n_pins example_heated = 1" "n_axial example_heated = 2"
  "n_fuel_rings example_heated = 1" "n_clad_rings example_heated = 1"
  "r_grid_fuel example_heated = [Finite 0, Finite 1]"
  "r_grid_clad example_heated = [Finite 1, Finite 2]"
  "source example_heated =
     \<lparr>shape = (1, 2, 2), storage = [Finite 10, Finite 0, Finite 30, Finite 0]\<rparr>"
  "temperature example_heated =
     \<lparr>shape = (1, 2, 2), storage = [Finite 300, Finite 320, Finite 400, Finite 440]\<rparr>"
  by (simp_all add: example_heated_def)

lemma example_heated_source_run:
  "update_heat_source example_heated example_Q (ring_to_cell_inst example_mappings)
     = Some example_heated"
  by (simp add: heat_source_eval example_forward example_Q_def)

lemma example_heated_temperature_run:
  "update_temperature example_heated [10, 20] (cell_inst_to_ring example_mappings)
     = Some example_calls"
  by (simp add: temperature_eval example_reverse example_calls_def)

lemmas solve_step_eval = solve_step_def picard_iteration_def transport_solve_def record_call_def
  checked_int_def int_range_def for_int_upto upto_rec1 example_openmc_def example_conduction_def
  example_coupled_def example_solved_def coupled_iteration_def Let_def
  example_heat_source_run example_heated_source_run example_temperature_run
  example_heated_temperature_run example_calls_def


lemma example_solve_run':
  "solve_step example_openmc example_conduction (example_coupled 3 2)
     = Some (example_solved 3 2 [0, 1, 3, 4, 6, 7])"
  by (simp add: solve_step_eval)


text \<open>
  C8 on the worked configuration, with three timesteps of two Picard iterations.
\<close>

theorem solve_step_iteration_index_witness:
  "solve_step example_openmc example_conduction (example_coupled 3 2)
     = Some (example_solved 3 2 [0, 1, 3, 4, 6, 7])
   \<and> openmc_active example_openmc
   \<and> solve_indices (trace (example_solved 3 2 [0, 1, 3, 4, 6, 7])) = [0, 1, 3, 4, 6, 7]"
proof -
  note run = example_solve_run'
  have act: "openmc_active example_openmc" by (simp add: example_openmc_def)
  have t0: "trace (example_coupled 3 2) = []" and cfg: "max_timesteps (example_coupled 3 2) = 3"
    "max_picard_iter (example_coupled 3 2) = 2"
    by (simp_all add: example_coupled_def)
  have u: "[0..(3::int) - 1] = [0, 1, 2]" "[0..(2::int) - 1] = [0, 1]"
    by (simp_all add: upto_rec1)
  show ?thesis
    using run act solve_step_iteration_index [OF run act] unfolding t0 cfg u by simp
qed

end
